theory Spec2Isabelle
  imports Main "HOL-Library.Multiset"
begin

section \<open>The binary search tree of \<^verbatim>\<open>include/bst.hpp\<close>\<close>

subsection \<open>Data model\<close>

text \<open>
  A \<^verbatim>\<open>TreeNode*\<close> is either \<^verbatim>\<open>nullptr\<close> or the address of a node that owns its two
  children. Nodes are never shared and the links have no cycles, so a pointer is modelled by
  the finite tree it owns: \<open>Null\<close> for \<^verbatim>\<open>nullptr\<close>, \<open>TreeNode d l r\<close> for a node with the
  fields \<^verbatim>\<open>data\<close>, \<^verbatim>\<open>left\<close> and \<^verbatim>\<open>right\<close>. The operations are defined for any
  element type with \<open><\<close>, the only operation of \<^verbatim>\<open>T\<close> the template uses. A theorem that
  needs laws of the ordering says so in its type: \<open>preorder\<close> where no value may be less than
  itself, \<open>linorder\<close> where the ordering is the strict ordering of a linear order, so that
  two values neither of which is less than the other are the same value.
\<close>

datatype 'a tree = Null | TreeNode (data: 'a) (left: "'a tree") (right: "'a tree")

text \<open>The class \<^verbatim>\<open>BST<T>\<close> has the single member \<^verbatim>\<open>root\<close>.\<close>

record 'a BST =
  root :: "'a tree"

text \<open>The constructor \<^verbatim>\<open>BST()\<close> initialises \<^verbatim>\<open>root\<close> with \<^verbatim>\<open>nullptr\<close>.\<close>

definition BST_new :: "'a BST" where
  "BST_new = \<lparr>root = Null\<rparr>"

subsection \<open>\<^verbatim>\<open>TreeNode::max\<close> and \<^verbatim>\<open>TreeNode::min\<close>\<close>

text \<open>
  Both are member functions, so the receiver is a node: the arguments are the fields of
  \<^verbatim>\<open>this\<close>. The loop \<^verbatim>\<open>while (current->right != nullptr) current = current->right\<close>
  is the recursion on \<^verbatim>\<open>current\<close>; the result is the node the loop stops at.
\<close>

fun TreeNode_max :: "'a \<Rightarrow> 'a tree \<Rightarrow> 'a tree \<Rightarrow> 'a tree" where
  "TreeNode_max d l Null = TreeNode d l Null"
| "TreeNode_max d l (TreeNode d' l' r') = TreeNode_max d' l' r'"

fun TreeNode_min :: "'a \<Rightarrow> 'a tree \<Rightarrow> 'a tree \<Rightarrow> 'a tree" where
  "TreeNode_min d Null r = TreeNode d Null r"
| "TreeNode_min d (TreeNode d' l' r') r = TreeNode_min d' l' r'"

subsection \<open>The private recursive operations\<close>

text \<open>
  \<^verbatim>\<open>find_node(TreeNode* node, const T& value)\<close> returns the node found, or \<^verbatim>\<open>nullptr\<close>.
\<close>

fun find_node_rec :: "'a::ord tree \<Rightarrow> 'a \<Rightarrow> 'a tree" where
  "find_node_rec Null v = Null"
| "find_node_rec (TreeNode d l r) v =
     (if v < d then find_node_rec l v
      else if d < v then find_node_rec r v
      else TreeNode d l r)"

text \<open>
  \<^verbatim>\<open>insert(TreeNode*& node, const T& value)\<close> assigns through the reference \<^verbatim>\<open>node\<close>;
  the model returns the new value of that pointer together with the result.
\<close>

fun insert_rec :: "'a::ord tree \<Rightarrow> 'a \<Rightarrow> 'a tree \<times> bool" where
  "insert_rec Null v = (TreeNode v Null Null, True)"
| "insert_rec (TreeNode d l r) v =
     (if v < d then (case insert_rec l v of (l', b) \<Rightarrow> (TreeNode d l' r, b))
      else if d < v then (case insert_rec r v of (r', b) \<Rightarrow> (TreeNode d l r', b))
      else (TreeNode d l r, False))"

fun contain_rec :: "'a::ord tree \<Rightarrow> 'a \<Rightarrow> bool" where
  "contain_rec Null v = False"
| "contain_rec (TreeNode d l r) v =
     (if v < d then contain_rec l v
      else if d < v then contain_rec r v
      else True)"

text \<open>
  \<^verbatim>\<open>remove(TreeNode*& node, const T& value)\<close>. In the case of two children the successor is
  \<^verbatim>\<open>node->right->min()\<close>, its value is copied into the node, and the value returned by the
  inner call is discarded.
\<close>

function remove_rec :: "'a::ord tree \<Rightarrow> 'a \<Rightarrow> 'a tree \<times> bool" where
  "remove_rec Null v = (Null, False)"
| "remove_rec (TreeNode d l r) v =
     (if v < d then (case remove_rec l v of (l', b) \<Rightarrow> (TreeNode d l' r, b))
      else if d < v then (case remove_rec r v of (r', b) \<Rightarrow> (TreeNode d l r', b))
      else (case (l, r) of
              (Null, Null) \<Rightarrow> (Null, True)
            | (Null, TreeNode rd rl rr) \<Rightarrow> (r, True)
            | (TreeNode ld ll lr, Null) \<Rightarrow> (l, True)
            | (TreeNode ld ll lr, TreeNode rd rl rr) \<Rightarrow>
                (let successor = TreeNode_min rd rl rr
                 in (TreeNode (data successor) l (fst (remove_rec r (data successor))), True))))"
  by pat_completeness auto
termination
  by (relation "measure (\<lambda>(t, v). size t)") auto

text \<open>
  The traversals append to the vector \<^verbatim>\<open>result\<close> passed by reference; the model takes
  the vector and returns it extended.
\<close>

fun in_order_rec :: "'a tree \<Rightarrow> 'a list \<Rightarrow> 'a list" where
  "in_order_rec Null result = result"
| "in_order_rec (TreeNode d l r) result = in_order_rec r (in_order_rec l result @ [d])"

fun pre_order_rec :: "'a tree \<Rightarrow> 'a list \<Rightarrow> 'a list" where
  "pre_order_rec Null result = result"
| "pre_order_rec (TreeNode d l r) result = pre_order_rec r (pre_order_rec l (result @ [d]))"

fun post_order_rec :: "'a tree \<Rightarrow> 'a list \<Rightarrow> 'a list" where
  "post_order_rec Null result = result"
| "post_order_rec (TreeNode d l r) result = post_order_rec r (post_order_rec l result) @ [d]"

subsection \<open>The public operations\<close>

definition BST_insert :: "'a::ord BST \<Rightarrow> 'a \<Rightarrow> 'a BST \<times> bool" where
  "BST_insert this v = (case insert_rec (root this) v of (n, b) \<Rightarrow> (this\<lparr>root := n\<rparr>, b))"

definition BST_remove :: "'a::ord BST \<Rightarrow> 'a \<Rightarrow> 'a BST \<times> bool" where
  "BST_remove this v = (case remove_rec (root this) v of (n, b) \<Rightarrow> (this\<lparr>root := n\<rparr>, b))"

definition BST_contain :: "'a::ord BST \<Rightarrow> 'a \<Rightarrow> bool" where
  "BST_contain this v = contain_rec (root this) v"

definition BST_find_node :: "'a::ord BST \<Rightarrow> 'a \<Rightarrow> 'a tree" where
  "BST_find_node this v = find_node_rec (root this) v"

definition BST_in_order :: "'a BST \<Rightarrow> 'a list" where
  "BST_in_order this = in_order_rec (root this) []"

definition BST_pre_order :: "'a BST \<Rightarrow> 'a list" where
  "BST_pre_order this = pre_order_rec (root this) []"

definition BST_post_order :: "'a BST \<Rightarrow> 'a list" where
  "BST_post_order this = post_order_rec (root this) []"

subsection \<open>Notions of the specification\<close>

text \<open>
  The ordering invariant of the data model: at every node, every value of the left subtree is
  strictly less than the node's value and every value of the right subtree strictly greater.
\<close>

fun bst_invariant :: "'a::ord tree \<Rightarrow> bool" where
  "bst_invariant Null = True"
| "bst_invariant (TreeNode d l r) =
     ((\<forall>x \<in> set_tree l. x < d) \<and> (\<forall>x \<in> set_tree r. d < x) \<and> bst_invariant l \<and> bst_invariant r)"

text \<open>
  A history of calls of the two mutating operations. \<open>run\<close> applies it to a tree, left to
  right, and returns the final tree with the value each call returned.
\<close>

datatype 'a call = Insert 'a | Remove 'a

fun call_bst :: "'a::ord BST \<Rightarrow> 'a call \<Rightarrow> 'a BST \<times> bool" where
  "call_bst this (Insert v) = BST_insert this v"
| "call_bst this (Remove v) = BST_remove this v"

fun run :: "'a::ord BST \<Rightarrow> 'a call list \<Rightarrow> 'a BST \<times> bool list" where
  "run this [] = (this, [])"
| "run this (c # cs) =
     (case call_bst this c of (this', b) \<Rightarrow>
        (case run this' cs of (final, bs) \<Rightarrow> (final, b # bs)))"

text \<open>The number of inserts, and of removes, of a history that returned true.\<close>

fun successful_inserts :: "'a call list \<Rightarrow> bool list \<Rightarrow> nat" where
  "successful_inserts (Insert v # cs) (b # bs) = (if b then 1 else 0) + successful_inserts cs bs"
| "successful_inserts (Remove v # cs) (b # bs) = successful_inserts cs bs"
| "successful_inserts cs bs = 0"

fun successful_removes :: "'a call list \<Rightarrow> bool list \<Rightarrow> nat" where
  "successful_removes (Remove v # cs) (b # bs) = (if b then 1 else 0) + successful_removes cs bs"
| "successful_removes (Insert v # cs) (b # bs) = successful_removes cs bs"
| "successful_removes cs bs = 0"

text \<open>
  The descent by comparison that \<^verbatim>\<open>insert\<close>, \<^verbatim>\<open>remove\<close>, \<^verbatim>\<open>contain\<close> and
  \<^verbatim>\<open>find_node\<close> share: the turns taken from a node until an absent slot or a node with an
  equivalent value is reached; the content of the slot at the end of a path; and the tree
  with the content of that slot replaced.
\<close>

datatype turn = Go_left | Go_right

fun descent :: "'a::ord tree \<Rightarrow> 'a \<Rightarrow> turn list" where
  "descent Null v = []"
| "descent (TreeNode d l r) v =
     (if v < d then Go_left # descent l v
      else if d < v then Go_right # descent r v
      else [])"

fun slot_at :: "'a tree \<Rightarrow> turn list \<Rightarrow> 'a tree" where
  "slot_at t [] = t"
| "slot_at Null (p # ps) = Null"
| "slot_at (TreeNode d l r) (Go_left # ps) = slot_at l ps"
| "slot_at (TreeNode d l r) (Go_right # ps) = slot_at r ps"

fun replace_at :: "'a tree \<Rightarrow> turn list \<Rightarrow> 'a tree \<Rightarrow> 'a tree" where
  "replace_at t [] s = s"
| "replace_at Null (p # ps) s = Null"
| "replace_at (TreeNode d l r) (Go_left # ps) s = TreeNode d (replace_at l ps s) r"
| "replace_at (TreeNode d l r) (Go_right # ps) s = TreeNode d l (replace_at r ps s)"

text \<open>
  The branch in which \<^verbatim>\<open>remove\<close> ends: the value is not found, or the node found is a
  leaf (case 1), has only a right child (case 2), only a left child (case 3), or two
  children (case 4). The tests are those of \<^verbatim>\<open>remove\<close>, in the same order.
\<close>

datatype remove_case = Not_found | Leaf_case | Only_right | Only_left | Two_children

fun remove_case_of :: "'a::ord tree \<Rightarrow> 'a \<Rightarrow> remove_case" where
  "remove_case_of Null v = Not_found"
| "remove_case_of (TreeNode d l r) v =
     (if v < d then remove_case_of l v
      else if d < v then remove_case_of r v
      else (case (l, r) of
              (Null, Null) \<Rightarrow> Leaf_case
            | (Null, TreeNode rd rl rr) \<Rightarrow> Only_right
            | (TreeNode ld ll lr, Null) \<Rightarrow> Only_left
            | (TreeNode ld ll lr, TreeNode rd rl rr) \<Rightarrow> Two_children))"

text \<open>The three traversals as functions of the tree alone.\<close>

fun inorder :: "'a tree \<Rightarrow> 'a list" where
  "inorder Null = []"
| "inorder (TreeNode d l r) = inorder l @ d # inorder r"

fun preorder :: "'a tree \<Rightarrow> 'a list" where
  "preorder Null = []"
| "preorder (TreeNode d l r) = d # preorder l @ preorder r"

fun postorder :: "'a tree \<Rightarrow> 'a list" where
  "postorder Null = []"
| "postorder (TreeNode d l r) = postorder l @ postorder r @ [d]"

subsection \<open>Equivalent values\<close>

text \<open>
  The searches never test equality: a node is taken for the value sought when neither is less
  than the other. Such values are called equivalent.
\<close>

definition equivalent :: "'a::ord \<Rightarrow> 'a \<Rightarrow> bool" where
  "equivalent x y = (\<not> x < y \<and> \<not> y < x)"

text \<open>
  A call that inserts a value equivalent to \<open>v\<close>, and a call that removes one.
\<close>

fun inserts_equivalent :: "'a::ord call \<Rightarrow> 'a \<Rightarrow> bool" where
  "inserts_equivalent (Insert u) v = equivalent u v"
| "inserts_equivalent (Remove u) v = False"

fun removes_equivalent :: "'a::ord call \<Rightarrow> 'a \<Rightarrow> bool" where
  "removes_equivalent (Remove u) v = equivalent u v"
| "removes_equivalent (Insert u) v = False"

text \<open>
  An element type on which equivalent values need not be equal: a key with a payload, where
  \<^verbatim>\<open>operator<\<close> compares the keys only. It is a strict weak ordering that is not linear.
\<close>

datatype kv = KV (key: int) (payload: int)

instantiation kv :: preorder
begin

definition less_eq_kv :: "kv \<Rightarrow> kv \<Rightarrow> bool" where
  "less_eq_kv x y = (key x \<le> key y)"

definition less_kv :: "kv \<Rightarrow> kv \<Rightarrow> bool" where
  "less_kv x y = (key x < key y)"

instance
  by standard (auto simp: less_eq_kv_def less_kv_def)

end

section \<open>Auxiliary facts\<close>

subsection \<open>Traversals\<close>

lemma in_order_rec_eq: "in_order_rec t res = res @ inorder t"
  by (induction t arbitrary: res) auto

lemma pre_order_rec_eq: "pre_order_rec t res = res @ preorder t"
  by (induction t arbitrary: res) auto

lemma post_order_rec_eq: "post_order_rec t res = res @ postorder t"
  by (induction t arbitrary: res) auto

lemma set_inorder: "set (inorder t) = set_tree t"
  by (induction t) auto

lemma set_preorder: "set (preorder t) = set_tree t"
  by (induction t) auto

lemma set_postorder: "set (postorder t) = set_tree t"
  by (induction t) auto

lemma length_inorder: "length (inorder t) = size t"
  by (induction t) auto

lemma length_preorder: "length (preorder t) = size t"
  by (induction t) auto

lemma length_postorder: "length (postorder t) = size t"
  by (induction t) auto

lemma sorted_inorder:
  "bst_invariant t \<Longrightarrow> sorted_wrt (<) (inorder (t :: 'a::linorder tree))"
  by (induction t) (auto simp: sorted_wrt_append set_inorder intro: less_trans)

subsection \<open>Search and insertion\<close>

lemma insert_rec_node:
  "insert_rec (TreeNode d l r) v =
     (if v < d then (TreeNode d (fst (insert_rec l v)) r, snd (insert_rec l v))
      else if d < v then (TreeNode d l (fst (insert_rec r v)), snd (insert_rec r v))
      else (TreeNode d l r, False))"
  by (simp add: case_prod_unfold)

lemma set_insert_rec:
  "set_tree (fst (insert_rec t v)) = insert (v :: 'a::linorder) (set_tree t)"
  by (induction t) (auto simp: insert_rec_node simp del: insert_rec.simps(2))

lemma bst_insert_rec:
  "bst_invariant t \<Longrightarrow> bst_invariant (fst (insert_rec t (v :: 'a::linorder)))"
  by (induction t) (auto simp: insert_rec_node set_insert_rec simp del: insert_rec.simps(2))

lemma snd_insert_rec: "snd (insert_rec t v) = (\<not> contain_rec t v)"
  by (induction t) (auto simp: insert_rec_node simp del: insert_rec.simps(2))

lemma size_insert_rec:
  "size (fst (insert_rec t v)) = size t + (if snd (insert_rec t v) then 1 else 0)"
  by (induction t) (auto simp: insert_rec_node simp del: insert_rec.simps(2))

lemma contain_rec_iff:
  "bst_invariant t \<Longrightarrow> contain_rec t v = (v \<in> set_tree (t :: 'a::linorder tree))"
  by (induction t) auto

lemma absent_not_contain: "v \<notin> set_tree t \<Longrightarrow> \<not> contain_rec t (v :: 'a::linorder)"
  by (induction t) auto

lemma find_node_rec_contain: "(find_node_rec t v = Null) = (\<not> contain_rec t v)"
  by (induction t) auto

lemma slot_at_descent: "slot_at t (descent t v) = find_node_rec t v"
  by (induction t) auto

lemma found_equivalent:
  "find_node_rec t v = TreeNode d l r \<Longrightarrow> \<not> v < d \<and> \<not> d < v"
  by (induction t) (auto split: if_splits)

lemma bst_find_node_rec: "bst_invariant t \<Longrightarrow> bst_invariant (find_node_rec t v)"
  by (induction t) auto

subsection \<open>The minimum of a subtree\<close>

lemma min_in: "data (TreeNode_min d l r) \<in> set_tree (TreeNode d l r)"
  by (induction d l r rule: TreeNode_min.induct) auto

lemma min_least:
  "bst_invariant (TreeNode d l r) \<Longrightarrow> x \<in> set_tree (TreeNode d l r)
     \<Longrightarrow> data (TreeNode_min d l r) \<le> (x :: 'a::linorder)"
proof (induction d l r arbitrary: x rule: TreeNode_min.induct)
  case (1 d r)
  then show ?case by auto
next
  case (2 d d' l' r' r)
  have m: "data (TreeNode_min d' l' r') \<in> set_tree (TreeNode d' l' r')"
    by (rule min_in)
  from 2 m show ?case by fastforce
qed

lemma min_left: "left (TreeNode_min d l r) = Null"
  by (induction d l r rule: TreeNode_min.induct) auto

lemma min_is_node: "TreeNode_min d l r \<noteq> Null"
  by (induction d l r rule: TreeNode_min.induct) auto

lemma find_min:
  "bst_invariant (TreeNode d l r)
     \<Longrightarrow> find_node_rec (TreeNode d l r) (data (TreeNode_min d l r)) = TreeNode_min d l (r :: 'a::linorder tree)"
proof (induction d l r rule: TreeNode_min.induct)
  case (1 d r)
  then show ?case by simp
next
  case (2 d d' l' r' r)
  have "data (TreeNode_min d' l' r') \<in> set_tree (TreeNode d' l' r')"
    by (rule min_in)
  with "2.prems" have "data (TreeNode_min d' l' r') < d" by auto
  with 2 show ?case by simp
qed

subsection \<open>Removal\<close>

lemma remove_rec_left:
  "v < d \<Longrightarrow>
     remove_rec (TreeNode d l r) v = (TreeNode d (fst (remove_rec l v)) r, snd (remove_rec l v))"
  by (simp add: case_prod_unfold)

lemma remove_rec_right:
  "\<not> v < d \<Longrightarrow> d < v \<Longrightarrow>
     remove_rec (TreeNode d l r) v = (TreeNode d l (fst (remove_rec r v)), snd (remove_rec r v))"
  by (simp add: case_prod_unfold)

lemma remove_rec_two:
  "\<not> v < d \<Longrightarrow> \<not> d < v \<Longrightarrow> l = TreeNode ld ll lr \<Longrightarrow> r = TreeNode rd rl rr \<Longrightarrow>
     remove_rec (TreeNode d l r) v =
       (TreeNode (data (TreeNode_min rd rl rr)) l
          (fst (remove_rec r (data (TreeNode_min rd rl rr)))), True)"
  by (simp add: Let_def)

lemma remove_rec_props:
  "bst_invariant t \<Longrightarrow>
     set_tree (fst (remove_rec t v)) = set_tree t - {v :: 'a::linorder}
     \<and> bst_invariant (fst (remove_rec t v))
     \<and> snd (remove_rec t v) = (v \<in> set_tree t)
     \<and> size (fst (remove_rec t v)) + (if v \<in> set_tree t then 1 else 0) = size t"
proof (induction t v rule: remove_rec.induct)
  case (1 v)
  show ?case by simp
next
  case (2 d l r v)
  have bl: "bst_invariant l" and br: "bst_invariant r"
    and lt: "\<forall>x \<in> set_tree l. x < d" and gt: "\<forall>x \<in> set_tree r. d < x"
    using "2.prems" by auto
  consider (less) "v < d" | (greater) "\<not> v < d" "d < v" | (here) "\<not> v < d" "\<not> d < v"
    by blast
  then show ?case
  proof cases
    case less
    have "v \<notin> set_tree r" "v \<noteq> d" using less gt by (auto dest: less_asym)
    with "2.IH"(1) [OF less bl] lt gt bl br show ?thesis
      unfolding remove_rec_left [OF less] by auto
  next
    case greater
    have "v \<notin> set_tree l" "v \<noteq> d" using greater lt by (auto dest: less_asym)
    with "2.IH"(2) [OF greater br] lt gt bl br show ?thesis
      unfolding remove_rec_right [OF greater] by auto
  next
    case here
    then have vd: "v = d" by simp
    have dl: "d \<notin> set_tree l" and dr: "d \<notin> set_tree r" using lt gt by auto
    show ?thesis
    proof (cases l)
      case ln: Null
      show ?thesis
      proof (cases r)
        case Null
        with ln vd show ?thesis by simp
      next
        case (TreeNode rd rl rr)
        with ln vd br dr show ?thesis by simp
      qed
    next
      case ln: (TreeNode ld ll lr)
      show ?thesis
      proof (cases r)
        case Null
        with ln vd bl dl show ?thesis by simp
      next
        case rn: (TreeNode rd rl rr)
        define m where "m = data (TreeNode_min rd rl rr)"
        have m_in: "m \<in> set_tree r" unfolding m_def rn by (rule min_in)
        have m_le: "\<forall>x \<in> set_tree r. m \<le> x"
          unfolding m_def using br min_least [of rd rl rr] rn by blast
        have "set_tree (fst (remove_rec r m)) = set_tree r - {m}
          \<and> bst_invariant (fst (remove_rec r m))
          \<and> snd (remove_rec r m) = (m \<in> set_tree r)
          \<and> size (fst (remove_rec r m)) + (if m \<in> set_tree r then 1 else 0) = size r"
          unfolding m_def by (rule "2.IH"(3) [OF here(1) here(2) refl ln rn refl br])
        then have ih: "set_tree (fst (remove_rec r m)) = set_tree r - {m}"
          "bst_invariant (fst (remove_rec r m))"
          "size (fst (remove_rec r m)) + 1 = size r"
          using m_in by simp_all
        have res: "remove_rec (TreeNode d l r) v = (TreeNode m l (fst (remove_rec r m)), True)"
          unfolding m_def by (rule remove_rec_two [OF here ln rn])
        have dm: "d < m" using gt m_in by blast
        have "set_tree (TreeNode m l (fst (remove_rec r m))) = set_tree (TreeNode d l r) - {v}"
          using ih(1) m_in dl dr vd by auto
        moreover have "bst_invariant (TreeNode m l (fst (remove_rec r m)))"
          using ih(1,2) bl lt dm m_le by (auto intro: less_trans)
        moreover have "size (TreeNode m l (fst (remove_rec r m))) + 1 = size (TreeNode d l r)"
          using ih(3) by simp
        ultimately show ?thesis unfolding res using vd by simp
      qed
    qed
  qed
qed

lemma set_remove_rec:
  "bst_invariant t \<Longrightarrow> set_tree (fst (remove_rec t v)) = set_tree t - {v :: 'a::linorder}"
  by (simp add: remove_rec_props)

lemma bst_remove_rec:
  "bst_invariant t \<Longrightarrow> bst_invariant (fst (remove_rec t (v :: 'a::linorder)))"
  by (simp add: remove_rec_props)

lemma snd_remove_rec:
  "bst_invariant t \<Longrightarrow> snd (remove_rec t v) = (v \<in> set_tree (t :: 'a::linorder tree))"
  by (simp add: remove_rec_props)

lemma size_remove_rec:
  "bst_invariant t \<Longrightarrow>
     size (fst (remove_rec t v)) + (if snd (remove_rec t (v :: 'a::linorder)) then 1 else 0) = size t"
  using remove_rec_props [of t v] by simp

lemma remove_rec_not_contain:
  "\<not> contain_rec t v \<Longrightarrow> remove_rec t v = (t, False)"
proof (induction t)
  case Null
  show ?case by simp
next
  case (TreeNode d l r)
  show ?case
  proof (cases "v < d")
    case True
    with TreeNode show ?thesis by (simp add: remove_rec_left del: remove_rec.simps)
  next
    case False
    with TreeNode.prems have gt: "d < v" by (simp split: if_splits)
    with False TreeNode show ?thesis by (simp add: remove_rec_right del: remove_rec.simps)
  qed
qed

lemma insert_rec_present:
  "contain_rec t v \<Longrightarrow> insert_rec t v = (t, False)"
  by (induction t) (auto simp: insert_rec_node simp del: insert_rec.simps(2) split: if_splits)

lemma remove_rec_descent:
  "remove_rec t v =
     (replace_at t (descent t v) (fst (remove_rec (find_node_rec t v) v)),
      snd (remove_rec (find_node_rec t v) v))"
proof (induction t)
  case Null
  show ?case by simp
next
  case (TreeNode d l r)
  show ?case
  proof (cases "v < d")
    case True
    then show ?thesis using TreeNode.IH(1) by (simp add: remove_rec_left del: remove_rec.simps)
  next
    case False
    show ?thesis
    proof (cases "d < v")
      case True
      with False TreeNode.IH(2) show ?thesis
        by (simp add: remove_rec_right del: remove_rec.simps)
    next
      case nothere: False
      with False show ?thesis by (simp del: remove_rec.simps)
    qed
  qed
qed

lemma insert_rec_descent:
  "insert_rec t v =
     (if find_node_rec t v = Null
      then (replace_at t (descent t v) (TreeNode v Null Null), True)
      else (t, False))"
  by (induction t) (auto simp: insert_rec_node simp del: insert_rec.simps(2))

subsection \<open>The traversals as permutations\<close>

lemma mset_inorder_preorder: "mset (inorder t) = mset (preorder t)"
  by (induction t) auto

lemma mset_inorder_postorder: "mset (inorder t) = mset (postorder t)"
  by (induction t) auto

subsection \<open>Termination of the recursions\<close>

text \<open>
  For a recursive function \<open>f\<close>, \<open>f_dom x\<close> says that \<open>x\<close> is in the accessible part of
  the relation between an argument and the arguments of the recursive calls it makes: every
  chain of nested calls that starts at \<open>x\<close> is finite.
\<close>

lemma insert_rec_total: "insert_rec_dom (t :: 'a::ord tree, v)"
proof (induction t arbitrary: v)
  case Null
  show ?case by (rule accpI) (erule insert_rec_rel.cases, simp_all)
next
  case (TreeNode d l r)
  show ?case by (rule accpI) (erule insert_rec_rel.cases, simp_all add: TreeNode)
qed

lemma remove_rec_total: "remove_rec_dom (t :: 'a::ord tree, v)"
proof (induction t arbitrary: v)
  case Null
  show ?case by (rule accpI) (erule remove_rec_rel.cases, simp_all)
next
  case (TreeNode d l r)
  show ?case by (rule accpI) (erule remove_rec_rel.cases, simp_all add: TreeNode)
qed

lemma contain_rec_total: "contain_rec_dom (t :: 'a::ord tree, v)"
proof (induction t arbitrary: v)
  case Null
  show ?case by (rule accpI) (erule contain_rec_rel.cases, simp_all)
next
  case (TreeNode d l r)
  show ?case by (rule accpI) (erule contain_rec_rel.cases, simp_all add: TreeNode)
qed

lemma find_node_rec_total: "find_node_rec_dom (t :: 'a::ord tree, v)"
proof (induction t arbitrary: v)
  case Null
  show ?case by (rule accpI) (erule find_node_rec_rel.cases, simp_all)
next
  case (TreeNode d l r)
  show ?case by (rule accpI) (erule find_node_rec_rel.cases, simp_all add: TreeNode)
qed

lemma in_order_rec_total: "in_order_rec_dom (t :: 'a tree, res)"
proof (induction t arbitrary: res)
  case Null
  show ?case by (rule accpI) (erule in_order_rec_rel.cases, simp_all)
next
  case (TreeNode d l r)
  show ?case by (rule accpI) (erule in_order_rec_rel.cases, simp_all add: TreeNode)
qed

lemma pre_order_rec_total: "pre_order_rec_dom (t :: 'a tree, res)"
proof (induction t arbitrary: res)
  case Null
  show ?case by (rule accpI) (erule pre_order_rec_rel.cases, simp_all)
next
  case (TreeNode d l r)
  show ?case by (rule accpI) (erule pre_order_rec_rel.cases, simp_all add: TreeNode)
qed

lemma post_order_rec_total: "post_order_rec_dom (t :: 'a tree, res)"
proof (induction t arbitrary: res)
  case Null
  show ?case by (rule accpI) (erule post_order_rec_rel.cases, simp_all)
next
  case (TreeNode d l r)
  show ?case by (rule accpI) (erule post_order_rec_rel.cases, simp_all add: TreeNode)
qed

lemma TreeNode_min_total: "TreeNode_min_dom (d :: 'a, l, r)"
proof (induction l arbitrary: d r)
  case Null
  show ?case by (rule accpI) (erule TreeNode_min_rel.cases, simp_all)
next
  case (TreeNode d' l' r')
  show ?case by (rule accpI) (erule TreeNode_min_rel.cases, simp_all add: TreeNode)
qed

lemma TreeNode_max_total: "TreeNode_max_dom (d :: 'a, l, r)"
proof (induction r arbitrary: d l)
  case Null
  show ?case by (rule accpI) (erule TreeNode_max_rel.cases, simp_all)
next
  case (TreeNode d' l' r')
  show ?case by (rule accpI) (erule TreeNode_max_rel.cases, simp_all add: TreeNode)
qed

subsection \<open>Histories of calls\<close>

lemma root_BST_insert: "root (fst (BST_insert this v)) = fst (insert_rec (root this) v)"
  by (simp add: BST_insert_def case_prod_unfold)

lemma snd_BST_insert: "snd (BST_insert this v) = snd (insert_rec (root this) v)"
  by (simp add: BST_insert_def case_prod_unfold)

lemma root_BST_remove: "root (fst (BST_remove this v)) = fst (remove_rec (root this) v)"
  by (simp add: BST_remove_def case_prod_unfold)

lemma snd_BST_remove: "snd (BST_remove this v) = snd (remove_rec (root this) v)"
  by (simp add: BST_remove_def case_prod_unfold)

lemma fst_run_Cons: "fst (run this (c # cs)) = fst (run (fst (call_bst this c)) cs)"
  by (simp add: case_prod_unfold)

lemma snd_run_Cons:
  "snd (run this (c # cs)) = snd (call_bst this c) # snd (run (fst (call_bst this c)) cs)"
  by (simp add: case_prod_unfold)

lemma length_snd_run: "length (snd (run this cs)) = length cs"
  by (induction cs arbitrary: this) (simp_all add: snd_run_Cons del: run.simps(2))

lemma bst_call:
  "bst_invariant (root this) \<Longrightarrow> bst_invariant (root (fst (call_bst this (c :: 'a::linorder call))))"
  by (cases c) (simp_all add: root_BST_insert root_BST_remove bst_insert_rec bst_remove_rec)

lemma bst_run:
  "bst_invariant (root this) \<Longrightarrow> bst_invariant (root (fst (run this (cs :: 'a::linorder call list))))"
proof (induction cs arbitrary: this)
  case Nil
  then show ?case by simp
next
  case (Cons c cs)
  from Cons.prems have "bst_invariant (root (fst (call_bst this c)))" by (rule bst_call)
  then show ?case unfolding fst_run_Cons by (rule Cons.IH)
qed

lemma split_Cons:
  "(\<exists>pre post. c # cs = pre @ x # post \<and> P post)
     = ((c = x \<and> P cs) \<or> (\<exists>pre post. cs = pre @ x # post \<and> P post))"
proof
  assume "\<exists>pre post. c # cs = pre @ x # post \<and> P post"
  then obtain pre post where eq: "c # cs = pre @ x # post" and p: "P post" by blast
  show "(c = x \<and> P cs) \<or> (\<exists>pre post. cs = pre @ x # post \<and> P post)"
  proof (cases pre)
    case Nil
    with eq p show ?thesis by simp
  next
    case (Cons a pre')
    with eq have "cs = pre' @ x # post" by simp
    with p show ?thesis by blast
  qed
next
  assume "(c = x \<and> P cs) \<or> (\<exists>pre post. cs = pre @ x # post \<and> P post)"
  then show "\<exists>pre post. c # cs = pre @ x # post \<and> P post"
  proof
    assume "c = x \<and> P cs"
    then have "c # cs = [] @ x # cs \<and> P cs" by simp
    then show ?thesis by blast
  next
    assume "\<exists>pre post. cs = pre @ x # post \<and> P post"
    then obtain pre post where "cs = pre @ x # post" "P post" by blast
    then have "c # cs = (c # pre) @ x # post \<and> P post" by simp
    then show ?thesis by blast
  qed
qed

lemma member_run:
  "bst_invariant (root this) \<Longrightarrow>
     (v \<in> set_tree (root (fst (run this cs))))
       = ((\<exists>pre post. cs = pre @ Insert v # post \<and> Remove v \<notin> set post)
          \<or> (v \<in> set_tree (root this) \<and> Remove (v :: 'a::linorder) \<notin> set cs))"
proof (induction cs arbitrary: this)
  case Nil
  show ?case by simp
next
  case (Cons c cs)
  let ?next = "fst (call_bst this c)"
  have inv: "bst_invariant (root ?next)" using Cons.prems by (rule bst_call)
  have step: "(v \<in> set_tree (root (fst (run this (c # cs)))))
      = ((\<exists>pre post. cs = pre @ Insert v # post \<and> Remove v \<notin> set post)
          \<or> (v \<in> set_tree (root ?next) \<and> Remove v \<notin> set cs))"
    unfolding fst_run_Cons by (rule Cons.IH [OF inv])
  show ?case
  proof (cases c)
    case (Insert u)
    then have "set_tree (root ?next) = insert u (set_tree (root this))"
      by (simp add: root_BST_insert set_insert_rec)
    with Insert show ?thesis
      unfolding step split_Cons [of c cs "Insert v" "\<lambda>post. Remove v \<notin> set post"] by auto
  next
    case (Remove u)
    then have "set_tree (root ?next) = set_tree (root this) - {u}"
      using Cons.prems by (simp add: root_BST_remove set_remove_rec)
    with Remove show ?thesis
      unfolding step split_Cons [of c cs "Insert v" "\<lambda>post. Remove v \<notin> set post"] by auto
  qed
qed

lemma not_member_run:
  "bst_invariant (root this) \<Longrightarrow>
     (v \<notin> set_tree (root (fst (run this cs))))
       = ((\<exists>pre post. cs = pre @ Remove v # post \<and> Insert v \<notin> set post)
          \<or> (v \<notin> set_tree (root this) \<and> Insert (v :: 'a::linorder) \<notin> set cs))"
proof (induction cs arbitrary: this)
  case Nil
  show ?case by simp
next
  case (Cons c cs)
  let ?next = "fst (call_bst this c)"
  have inv: "bst_invariant (root ?next)" using Cons.prems by (rule bst_call)
  have step: "(v \<notin> set_tree (root (fst (run this (c # cs)))))
      = ((\<exists>pre post. cs = pre @ Remove v # post \<and> Insert v \<notin> set post)
          \<or> (v \<notin> set_tree (root ?next) \<and> Insert v \<notin> set cs))"
    unfolding fst_run_Cons by (rule Cons.IH [OF inv])
  show ?case
  proof (cases c)
    case (Insert u)
    then have "set_tree (root ?next) = insert u (set_tree (root this))"
      by (simp add: root_BST_insert set_insert_rec)
    with Insert show ?thesis
      unfolding step split_Cons [of c cs "Remove v" "\<lambda>post. Insert v \<notin> set post"] by auto
  next
    case (Remove u)
    then have "set_tree (root ?next) = set_tree (root this) - {u}"
      using Cons.prems by (simp add: root_BST_remove set_remove_rec)
    with Remove show ?thesis
      unfolding step split_Cons [of c cs "Remove v" "\<lambda>post. Insert v \<notin> set post"] by auto
  qed
qed

lemma count_run:
  "bst_invariant (root this) \<Longrightarrow>
     size (root (fst (run this cs))) + successful_removes cs (snd (run this cs))
       = size (root this) + successful_inserts (cs :: 'a::linorder call list) (snd (run this cs))"
proof (induction cs arbitrary: this)
  case Nil
  show ?case by simp
next
  case (Cons c cs)
  let ?next = "fst (call_bst this c)"
  have inv: "bst_invariant (root ?next)" using Cons.prems by (rule bst_call)
  note ih = Cons.IH [OF inv]
  show ?case
  proof (cases c)
    case (Insert u)
    have "size (root ?next) = size (root this) + (if snd (call_bst this c) then 1 else 0)"
      using Insert by (simp add: root_BST_insert snd_BST_insert size_insert_rec)
    with ih Insert show ?thesis
      unfolding fst_run_Cons snd_run_Cons by simp
  next
    case (Remove u)
    have "size (root ?next) + (if snd (call_bst this c) then 1 else 0) = size (root this)"
      using Remove Cons.prems by (simp add: root_BST_remove snd_BST_remove size_remove_rec)
    with ih Remove show ?thesis
      unfolding fst_run_Cons snd_run_Cons by simp
  qed
qed

subsection \<open>The slot reached by the descent\<close>

lemma slot_replace_descent: "slot_at (replace_at t (descent t v) s) (descent t v) = s"
  by (induction t) auto

lemma remove_case_found: "remove_case_of t v = remove_case_of (find_node_rec t v) v"
  by (induction t) auto

lemma insert_leaf_found:
  "\<not> contain_rec t v \<Longrightarrow>
     find_node_rec (fst (insert_rec t v)) (v :: 'a::preorder) = TreeNode v Null Null"
  by (induction t) (auto simp: insert_rec_node simp del: insert_rec.simps(2) split: if_splits)

lemma insert_then_remove_rec:
  "\<not> contain_rec t v \<Longrightarrow> remove_rec (fst (insert_rec t v)) (v :: 'a::preorder) = (t, True)"
proof (induction t)
  case Null
  show ?case by simp
next
  case (TreeNode d l r)
  show ?case
  proof (cases "v < d")
    case True
    with TreeNode show ?thesis
      by (simp add: insert_rec_node remove_rec_left del: insert_rec.simps(2) remove_rec.simps)
  next
    case False
    with TreeNode.prems have gt: "d < v" by (simp split: if_splits)
    with False TreeNode show ?thesis
      by (simp add: insert_rec_node remove_rec_right del: insert_rec.simps(2) remove_rec.simps)
  qed
qed

subsection \<open>Orderings in which equivalent values need not be equal\<close>

lemma equivalent_refl: "equivalent x (x :: 'a::preorder)"
  by (simp add: equivalent_def)

lemma equivalent_sym: "equivalent x y = equivalent y x"
  by (auto simp: equivalent_def)

lemma found_in_tree: "find_node_rec t v = TreeNode x fl fr \<Longrightarrow> x \<in> set_tree t"
  by (induction t) (auto split: if_splits)

lemma found_is_equivalent: "find_node_rec t v = TreeNode x fl fr \<Longrightarrow> equivalent v x"
  unfolding equivalent_def by (rule found_equivalent)

lemma contain_rec_found: "contain_rec t v \<Longrightarrow> \<exists>x fl fr. find_node_rec t v = TreeNode x fl fr"
  using find_node_rec_contain [of t v] by (cases "find_node_rec t v") auto

lemma contain_rec_imp_equivalent: "contain_rec t v \<Longrightarrow> \<exists>x \<in> set_tree t. equivalent v x"
  using contain_rec_found [of t v] found_in_tree [of t v] found_is_equivalent [of t v] by blast

lemma equivalent_imp_contain_rec:
  "bst_invariant t \<Longrightarrow> x \<in> set_tree t \<Longrightarrow> equivalent v x
     \<Longrightarrow> contain_rec t (v :: 'a::preorder)"
proof (induction t)
  case Null
  then show ?case by simp
next
  case (TreeNode d l r)
  have eq: "\<not> v < x" "\<not> x < v" using TreeNode.prems(3) by (simp_all add: equivalent_def)
  show ?case
  proof (cases "v < d")
    case True
    have "x \<noteq> d" using True eq by auto
    moreover have "x \<notin> set_tree r"
    proof
      assume "x \<in> set_tree r"
      with TreeNode.prems(1) have "d < x" by simp
      with True have "v < x" by (rule less_trans)
      with eq show False by simp
    qed
    ultimately have "x \<in> set_tree l" using TreeNode.prems(2) by simp
    with TreeNode True show ?thesis by simp
  next
    case False
    show ?thesis
    proof (cases "d < v")
      case True
      have "x \<noteq> d" using True eq by auto
      moreover have "x \<notin> set_tree l"
      proof
        assume "x \<in> set_tree l"
        with TreeNode.prems(1) have "x < d" by simp
        then have "x < v" using True by (rule less_trans)
        with eq show False by simp
      qed
      ultimately have "x \<in> set_tree r" using TreeNode.prems(2) by simp
      with TreeNode False True show ?thesis by simp
    next
      case nl: False
      with False show ?thesis by simp
    qed
  qed
qed

lemma contain_rec_equivalent:
  "bst_invariant t \<Longrightarrow> contain_rec t v = (\<exists>x \<in> set_tree t. equivalent (v :: 'a::preorder) x)"
  using contain_rec_imp_equivalent [of t v] equivalent_imp_contain_rec [of t _ v] by blast

lemma set_insert_rec_any:
  "set_tree (fst (insert_rec t v))
     = (if contain_rec t v then set_tree t else insert v (set_tree t))"
  by (induction t) (auto simp: insert_rec_node simp del: insert_rec.simps(2))

lemma bst_insert_rec_any: "bst_invariant t \<Longrightarrow> bst_invariant (fst (insert_rec t v))"
  by (induction t)
    (auto simp: insert_rec_node set_insert_rec_any simp del: insert_rec.simps(2) split: if_splits)

lemma comparable_in_bst:
  "bst_invariant t \<Longrightarrow> x \<in> set_tree t \<Longrightarrow> y \<in> set_tree t \<Longrightarrow> x \<noteq> y
     \<Longrightarrow> x < y \<or> y < (x :: 'a::preorder)"
proof (induction t)
  case Null
  then show ?case by simp
next
  case (TreeNode d l r)
  have l: "\<forall>z \<in> set_tree l. z < d" and r: "\<forall>z \<in> set_tree r. d < z"
    using TreeNode.prems(1) by simp_all
  have lr: "\<And>a b. a \<in> set_tree l \<Longrightarrow> b \<in> set_tree r \<Longrightarrow> a < b"
    using l r by (blast intro: less_trans)
  consider "x \<in> set_tree l" "y \<in> set_tree l" | "x \<in> set_tree r" "y \<in> set_tree r"
    | "x \<in> set_tree l" "y \<in> set_tree r" | "x \<in> set_tree r" "y \<in> set_tree l"
    | "x = d" "y \<in> set_tree l" | "x = d" "y \<in> set_tree r"
    | "y = d" "x \<in> set_tree l" | "y = d" "x \<in> set_tree r"
    using TreeNode.prems(2,3,4) by auto
  then show ?case
  proof cases
    case 1
    with TreeNode show ?thesis by simp
  next
    case 2
    with TreeNode show ?thesis by simp
  next
    case 3
    then show ?thesis using lr by blast
  next
    case 4
    then show ?thesis using lr by blast
  next
    case 5
    then show ?thesis using l by blast
  next
    case 6
    then show ?thesis using r by blast
  next
    case 7
    then show ?thesis using l by blast
  next
    case 8
    then show ?thesis using r by blast
  qed
qed

lemma min_less:
  "bst_invariant (TreeNode d l r) \<Longrightarrow> x \<in> set_tree (TreeNode d l r)
     \<Longrightarrow> x \<noteq> data (TreeNode_min d l r) \<Longrightarrow> data (TreeNode_min d l r) < (x :: 'a::preorder)"
proof -
  assume inv: "bst_invariant (TreeNode d l r)" and x: "x \<in> set_tree (TreeNode d l r)"
    and ne: "x \<noteq> data (TreeNode_min d l r)"
  let ?m = "data (TreeNode_min d l r)"
  have m: "?m \<in> set_tree (TreeNode d l r)" by (rule min_in)
  have "x < ?m \<or> ?m < x" using inv x m ne by (rule comparable_in_bst)
  moreover have "\<not> x < ?m"
    using inv x
  proof (induction d l r rule: TreeNode_min.induct)
    case (1 d r)
    then show ?case by (auto dest: less_asym)
  next
    case (2 d d' l' r' r)
    have m': "data (TreeNode_min d' l' r') \<in> set_tree (TreeNode d' l' r')" by (rule min_in)
    have md: "data (TreeNode_min d' l' r') < d" using m' "2.prems"(1) by auto
    show ?case
    proof (cases "x \<in> set_tree (TreeNode d' l' r')")
      case True
      with 2 show ?thesis by simp
    next
      case False
      with "2.prems"(2) have "x = d \<or> x \<in> set_tree r" by auto
      then have "d = x \<or> d < x" using "2.prems"(1) by auto
      then have "data (TreeNode_min d' l' r') < x" using md by (auto intro: less_trans)
      then show ?thesis by (auto dest: less_asym)
    qed
  qed
  ultimately show ?thesis by simp
qed

lemma find_min_any:
  "bst_invariant (TreeNode d l r)
     \<Longrightarrow> find_node_rec (TreeNode d l r) (data (TreeNode_min d l r))
         = TreeNode_min d l (r :: 'a::preorder tree)"
proof (induction d l r rule: TreeNode_min.induct)
  case (1 d r)
  then show ?case by simp
next
  case (2 d d' l' r' r)
  have "data (TreeNode_min d' l' r') \<in> set_tree (TreeNode d' l' r')"
    by (rule min_in)
  with "2.prems" have "data (TreeNode_min d' l' r') < d" by auto
  with 2 show ?case by simp
qed

lemma remove_rec_found:
  "bst_invariant t \<Longrightarrow> find_node_rec t v = TreeNode x fl fr \<Longrightarrow>
     set_tree (fst (remove_rec t v)) = set_tree t - {x :: 'a::preorder}
     \<and> bst_invariant (fst (remove_rec t v))
     \<and> snd (remove_rec t v)
     \<and> size (fst (remove_rec t v)) + 1 = size t"
proof (induction t v arbitrary: x fl fr rule: remove_rec.induct)
  case (1 v)
  then show ?case by simp
next
  case (2 d l r v)
  have bl: "bst_invariant l" and br: "bst_invariant r"
    and lt: "\<forall>y \<in> set_tree l. y < d" and gt: "\<forall>y \<in> set_tree r. d < y"
    using "2.prems"(1) by auto
  have dl: "d \<notin> set_tree l" and dr: "d \<notin> set_tree r" using lt gt by auto
  consider (less) "v < d" | (greater) "\<not> v < d" "d < v" | (here) "\<not> v < d" "\<not> d < v"
    by blast
  then show ?case
  proof cases
    case less
    then have f: "find_node_rec l v = TreeNode x fl fr" using "2.prems"(2) by simp
    then have xl: "x \<in> set_tree l" by (rule found_in_tree)
    then have xd: "x < d" using lt by blast
    have "x \<noteq> d" using xd by auto
    moreover have "x \<notin> set_tree r" using xd gt by (auto dest: less_asym)
    ultimately show ?thesis
      using "2.IH"(1) [OF less bl f] xl lt gt br
      unfolding remove_rec_left [OF less] by auto
  next
    case greater
    then have f: "find_node_rec r v = TreeNode x fl fr" using "2.prems"(2) by simp
    then have xr: "x \<in> set_tree r" by (rule found_in_tree)
    then have xd: "d < x" using gt by blast
    have "x \<noteq> d" using xd by auto
    moreover have "x \<notin> set_tree l" using xd lt by (auto dest: less_asym)
    ultimately show ?thesis
      using "2.IH"(2) [OF greater br f] xr lt gt bl
      unfolding remove_rec_right [OF greater] by auto
  next
    case here
    then have xd: "x = d" using "2.prems"(2) by simp
    show ?thesis
    proof (cases l)
      case ln: Null
      show ?thesis
      proof (cases r)
        case Null
        with ln xd here show ?thesis by simp
      next
        case (TreeNode rd rl rr)
        with ln xd here br dr show ?thesis by simp
      qed
    next
      case ln: (TreeNode ld ll lr)
      show ?thesis
      proof (cases r)
        case Null
        with ln xd here bl dl show ?thesis by simp
      next
        case rn: (TreeNode rd rl rr)
        define m where "m = data (TreeNode_min rd rl rr)"
        have m_in: "m \<in> set_tree r" unfolding m_def rn by (rule min_in)
        have m_lt: "\<forall>y \<in> set_tree r - {m}. m < y"
          unfolding m_def using br min_less [of rd rl rr] rn by blast
        have no_left: "left (TreeNode_min rd rl rr) = Null" by (rule min_left)
        obtain sr where succ: "TreeNode_min rd rl rr = TreeNode m Null sr"
          using no_left min_is_node [of rd rl rr] m_def by (cases "TreeNode_min rd rl rr") auto
        have "find_node_rec (TreeNode rd rl rr) (data (TreeNode_min rd rl rr))
            = TreeNode_min rd rl rr"
          using br unfolding rn by (rule find_min_any)
        then have found: "find_node_rec r (data (TreeNode_min rd rl rr)) = TreeNode m Null sr"
          unfolding rn succ .
        have "set_tree (fst (remove_rec r (data (TreeNode_min rd rl rr)))) = set_tree r - {m}
          \<and> bst_invariant (fst (remove_rec r (data (TreeNode_min rd rl rr))))
          \<and> snd (remove_rec r (data (TreeNode_min rd rl rr)))
          \<and> size (fst (remove_rec r (data (TreeNode_min rd rl rr)))) + 1 = size r"
          by (rule "2.IH"(3) [OF here(1) here(2) refl ln rn refl br found])
        then have ih: "set_tree (fst (remove_rec r m)) = set_tree r - {m}"
          "bst_invariant (fst (remove_rec r m))"
          "size (fst (remove_rec r m)) + 1 = size r"
          unfolding m_def by simp_all
        have res: "remove_rec (TreeNode d l r) v = (TreeNode m l (fst (remove_rec r m)), True)"
          unfolding m_def by (rule remove_rec_two [OF here ln rn])
        have dm: "d < m" using gt m_in by blast
        have "set_tree (TreeNode m l (fst (remove_rec r m))) = set_tree (TreeNode d l r) - {x}"
          using ih(1) m_in dl dr xd by auto
        moreover have "bst_invariant (TreeNode m l (fst (remove_rec r m)))"
          using ih(1,2) bl lt dm m_lt by (auto intro: less_trans)
        moreover have "size (TreeNode m l (fst (remove_rec r m))) + 1 = size (TreeNode d l r)"
          using ih(3) by simp
        ultimately show ?thesis unfolding res by simp
      qed
    qed
  qed
qed

lemma remove_rec_complete:
  "bst_invariant t \<Longrightarrow> snd (remove_rec t v) \<Longrightarrow>
     bst_invariant (fst (remove_rec t v))
     \<and> (\<exists>x \<in> set_tree t. equivalent v x
           \<and> set_tree (fst (remove_rec t v)) = set_tree t - {x :: 'a::preorder})
     \<and> size (fst (remove_rec t v)) + 1 = size t"
proof -
  assume inv: "bst_invariant t" and ret: "snd (remove_rec t v)"
  have "contain_rec t v"
  proof (rule ccontr)
    assume "\<not> contain_rec t v"
    then have "remove_rec t v = (t, False)" by (rule remove_rec_not_contain)
    with ret show False by simp
  qed
  then obtain x fl fr where f: "find_node_rec t v = TreeNode x fl fr"
    using contain_rec_found by blast
  from remove_rec_found [OF inv f] found_in_tree [OF f] found_is_equivalent [OF f]
  show ?thesis by blast
qed

lemma snd_remove_rec_contain:
  "bst_invariant t \<Longrightarrow> snd (remove_rec t v) = contain_rec t (v :: 'a::preorder)"
proof (cases "contain_rec t v")
  case True
  assume inv: "bst_invariant t"
  from True obtain x fl fr where f: "find_node_rec t v = TreeNode x fl fr"
    using contain_rec_found by blast
  from remove_rec_found [OF inv f] True show ?thesis by simp
next
  case False
  then show ?thesis by (simp add: remove_rec_not_contain)
qed

lemma insert_rec_complete:
  "bst_invariant t \<Longrightarrow> snd (insert_rec t v) \<Longrightarrow>
     bst_invariant (fst (insert_rec t v))
     \<and> set_tree (fst (insert_rec t v)) = insert v (set_tree t)
     \<and> size (fst (insert_rec t v)) = size t + 1"
  by (simp add: bst_insert_rec_any set_insert_rec_any size_insert_rec snd_insert_rec)

lemma remove_rec_false: "\<not> snd (remove_rec t v) \<Longrightarrow> remove_rec t v = (t, False)"
proof (induction t)
  case Null
  show ?case by simp
next
  case (TreeNode d l r)
  show ?case
  proof (cases "v < d")
    case True
    with TreeNode show ?thesis by (simp add: remove_rec_left del: remove_rec.simps)
  next
    case False
    show ?thesis
    proof (cases "d < v")
      case True
      with False TreeNode show ?thesis by (simp add: remove_rec_right del: remove_rec.simps)
    next
      case nl: False
      have "snd (remove_rec (TreeNode d l r) v)"
        using False nl by (cases l; cases r) (simp_all add: Let_def)
      with TreeNode.prems show ?thesis by simp
    qed
  qed
qed

lemma bst_remove_rec_any:
  "bst_invariant t \<Longrightarrow> bst_invariant (fst (remove_rec t (v :: 'a::preorder)))"
proof (cases "snd (remove_rec t v)")
  case True
  assume "bst_invariant t"
  with True show ?thesis using remove_rec_complete [of t v] by simp
next
  case False
  assume "bst_invariant t"
  with False show ?thesis by (simp add: remove_rec_false)
qed

lemma contain_after_insert:
  fixes t :: "'a::preorder tree"
  assumes inv: "bst_invariant t"
    and tr: "\<And>x y z :: 'a. equivalent x y \<Longrightarrow> equivalent y z \<Longrightarrow> equivalent x z"
  shows "contain_rec (fst (insert_rec t u)) v = (contain_rec t v \<or> equivalent u v)"
proof -
  have inv': "bst_invariant (fst (insert_rec t u))" using inv by (rule bst_insert_rec_any)
  show ?thesis
  proof (cases "contain_rec t u")
    case True
    then obtain y where y: "y \<in> set_tree t" "equivalent u y"
      using contain_rec_imp_equivalent by blast
    have "equivalent u v \<Longrightarrow> contain_rec t v"
    proof -
      assume "equivalent u v"
      then have "equivalent v u" by (simp add: equivalent_sym)
      then have "equivalent v y" using y(2) by (rule tr)
      with inv y(1) show ?thesis by (rule equivalent_imp_contain_rec)
    qed
    moreover have "fst (insert_rec t u) = t" using True by (simp add: insert_rec_present)
    ultimately show ?thesis by auto
  next
    case False
    then have "set_tree (fst (insert_rec t u)) = insert u (set_tree t)"
      by (simp add: set_insert_rec_any)
    then show ?thesis
      unfolding contain_rec_equivalent [OF inv] contain_rec_equivalent [OF inv']
      by (auto simp: equivalent_sym)
  qed
qed

lemma contain_after_remove:
  fixes t :: "'a::preorder tree"
  assumes inv: "bst_invariant t"
    and tr: "\<And>x y z :: 'a. equivalent x y \<Longrightarrow> equivalent y z \<Longrightarrow> equivalent x z"
  shows "contain_rec (fst (remove_rec t w)) v = (contain_rec t v \<and> \<not> equivalent w v)"
proof (cases "contain_rec t w")
  case False
  have "equivalent w v \<Longrightarrow> \<not> contain_rec t v"
  proof
    assume wv: "equivalent w v" and "contain_rec t v"
    then obtain y where y: "y \<in> set_tree t" "equivalent v y"
      using contain_rec_imp_equivalent by blast
    from wv y(2) have "equivalent w y" by (rule tr)
    with inv y(1) have "contain_rec t w" by (rule equivalent_imp_contain_rec)
    with False show False by simp
  qed
  moreover have "fst (remove_rec t w) = t" using False by (simp add: remove_rec_not_contain)
  ultimately show ?thesis by auto
next
  case True
  then obtain x fl fr where f: "find_node_rec t w = TreeNode x fl fr"
    using contain_rec_found by blast
  have xin: "x \<in> set_tree t" using f by (rule found_in_tree)
  have wx: "equivalent w x" using f by (rule found_is_equivalent)
  have rest: "set_tree (fst (remove_rec t w)) = set_tree t - {x}"
    and inv': "bst_invariant (fst (remove_rec t w))"
    using remove_rec_found [OF inv f] by simp_all
  show ?thesis
    unfolding contain_rec_equivalent [OF inv] contain_rec_equivalent [OF inv'] rest
  proof
    assume "\<exists>y \<in> set_tree t - {x}. equivalent v y"
    then obtain y where y: "y \<in> set_tree t" "y \<noteq> x" "equivalent v y" by blast
    have "\<not> equivalent w v"
    proof
      assume "equivalent w v"
      then have "equivalent w y" using y(3) by (rule tr)
      then have "equivalent y w" by (simp add: equivalent_sym)
      then have "equivalent y x" using wx by (rule tr)
      moreover have "y < x \<or> x < y" using inv y(1) xin y(2) by (rule comparable_in_bst)
      ultimately show False by (auto simp: equivalent_def)
    qed
    with y show "(\<exists>y \<in> set_tree t. equivalent v y) \<and> \<not> equivalent w v" by blast
  next
    assume a: "(\<exists>y \<in> set_tree t. equivalent v y) \<and> \<not> equivalent w v"
    then obtain y where y: "y \<in> set_tree t" "equivalent v y" by blast
    have "y \<noteq> x"
    proof
      assume "y = x"
      with y(2) have "equivalent x v" by (simp add: equivalent_sym)
      with wx have "equivalent w v" by (rule tr)
      with a show False by simp
    qed
    with y show "\<exists>y \<in> set_tree t - {x}. equivalent v y" by blast
  qed
qed

lemma bst_call_any:
  "bst_invariant (root this)
     \<Longrightarrow> bst_invariant (root (fst (call_bst this (c :: 'a::preorder call))))"
  by (cases c)
    (simp_all add: root_BST_insert root_BST_remove bst_insert_rec_any bst_remove_rec_any)

lemma bst_run_any:
  "bst_invariant (root this)
     \<Longrightarrow> bst_invariant (root (fst (run this (cs :: 'a::preorder call list))))"
proof (induction cs arbitrary: this)
  case Nil
  then show ?case by simp
next
  case (Cons c cs)
  from Cons.prems have "bst_invariant (root (fst (call_bst this c)))" by (rule bst_call_any)
  then show ?case unfolding fst_run_Cons by (rule Cons.IH)
qed

lemma contain_after_call:
  fixes this :: "'a::preorder BST"
  assumes inv: "bst_invariant (root this)"
    and tr: "\<And>x y z :: 'a. equivalent x y \<Longrightarrow> equivalent y z \<Longrightarrow> equivalent x z"
  shows "contain_rec (root (fst (call_bst this c))) v
    = ((contain_rec (root this) v \<or> inserts_equivalent c v) \<and> \<not> removes_equivalent c v)"
proof (cases c)
  case (Insert u)
  then show ?thesis
    using contain_after_insert [OF inv tr, where u = u and v = v] by (simp add: root_BST_insert)
next
  case (Remove w)
  then show ?thesis
    using contain_after_remove [OF inv tr, where w = w and v = v] by (simp add: root_BST_remove)
qed

lemma inserts_not_removes: "inserts_equivalent c v \<Longrightarrow> \<not> removes_equivalent c v"
  by (cases c) simp_all

lemma split_Cons_at:
  "(\<exists>pre x post. c # cs = pre @ x # post \<and> X x \<and> P post)
     = ((X c \<and> P cs) \<or> (\<exists>pre x post. cs = pre @ x # post \<and> X x \<and> P post))"
proof
  assume "\<exists>pre x post. c # cs = pre @ x # post \<and> X x \<and> P post"
  then obtain pre x post where eq: "c # cs = pre @ x # post" and p: "X x" "P post" by blast
  show "(X c \<and> P cs) \<or> (\<exists>pre x post. cs = pre @ x # post \<and> X x \<and> P post)"
  proof (cases pre)
    case Nil
    with eq p show ?thesis by simp
  next
    case (Cons a pre')
    with eq have "cs = pre' @ x # post" by simp
    with p show ?thesis by blast
  qed
next
  assume "(X c \<and> P cs) \<or> (\<exists>pre x post. cs = pre @ x # post \<and> X x \<and> P post)"
  then show "\<exists>pre x post. c # cs = pre @ x # post \<and> X x \<and> P post"
  proof
    assume "X c \<and> P cs"
    then have "c # cs = [] @ c # cs \<and> X c \<and> P cs" by simp
    then show ?thesis by blast
  next
    assume "\<exists>pre x post. cs = pre @ x # post \<and> X x \<and> P post"
    then obtain pre x post where "cs = pre @ x # post" "X x" "P post" by blast
    then have "c # cs = (c # pre) @ x # post \<and> X x \<and> P post" by simp
    then show ?thesis by blast
  qed
qed

lemma contain_run:
  fixes this :: "'a::preorder BST"
  assumes inv: "bst_invariant (root this)"
    and tr: "\<And>x y z :: 'a. equivalent x y \<Longrightarrow> equivalent y z \<Longrightarrow> equivalent x z"
  shows "contain_rec (root (fst (run this cs))) v
    = ((\<exists>pre c post. cs = pre @ c # post \<and> inserts_equivalent c v
           \<and> (\<forall>c' \<in> set post. \<not> removes_equivalent c' v))
       \<or> (contain_rec (root this) v \<and> (\<forall>c' \<in> set cs. \<not> removes_equivalent c' v)))"
  using inv
proof (induction cs arbitrary: this)
  case Nil
  show ?case by simp
next
  case (Cons c cs)
  let ?next = "fst (call_bst this c)"
  have inv': "bst_invariant (root ?next)" using Cons.prems by (rule bst_call_any)
  have step: "contain_rec (root (fst (run this (c # cs)))) v
      = ((\<exists>pre c post. cs = pre @ c # post \<and> inserts_equivalent c v
             \<and> (\<forall>c' \<in> set post. \<not> removes_equivalent c' v))
         \<or> (contain_rec (root ?next) v \<and> (\<forall>c' \<in> set cs. \<not> removes_equivalent c' v)))"
    unfolding fst_run_Cons by (rule Cons.IH [OF inv'])
  have call: "contain_rec (root ?next) v
      = ((contain_rec (root this) v \<or> inserts_equivalent c v) \<and> \<not> removes_equivalent c v)"
    using Cons.prems tr by (rule contain_after_call)
  show ?case
    unfolding step call
      split_Cons_at [of c cs "\<lambda>c. inserts_equivalent c v"
        "\<lambda>post. \<forall>c' \<in> set post. \<not> removes_equivalent c' v"]
    using inserts_not_removes [of c v] by auto
qed

lemma not_contain_run:
  fixes this :: "'a::preorder BST"
  assumes inv: "bst_invariant (root this)"
    and tr: "\<And>x y z :: 'a. equivalent x y \<Longrightarrow> equivalent y z \<Longrightarrow> equivalent x z"
  shows "(\<not> contain_rec (root (fst (run this cs))) v)
    = ((\<exists>pre c post. cs = pre @ c # post \<and> removes_equivalent c v
           \<and> (\<forall>c' \<in> set post. \<not> inserts_equivalent c' v))
       \<or> (\<not> contain_rec (root this) v \<and> (\<forall>c' \<in> set cs. \<not> inserts_equivalent c' v)))"
  using inv
proof (induction cs arbitrary: this)
  case Nil
  show ?case by simp
next
  case (Cons c cs)
  let ?next = "fst (call_bst this c)"
  have inv': "bst_invariant (root ?next)" using Cons.prems by (rule bst_call_any)
  have step: "(\<not> contain_rec (root (fst (run this (c # cs)))) v)
      = ((\<exists>pre c post. cs = pre @ c # post \<and> removes_equivalent c v
             \<and> (\<forall>c' \<in> set post. \<not> inserts_equivalent c' v))
         \<or> (\<not> contain_rec (root ?next) v \<and> (\<forall>c' \<in> set cs. \<not> inserts_equivalent c' v)))"
    unfolding fst_run_Cons by (rule Cons.IH [OF inv'])
  have call: "contain_rec (root ?next) v
      = ((contain_rec (root this) v \<or> inserts_equivalent c v) \<and> \<not> removes_equivalent c v)"
    using Cons.prems tr by (rule contain_after_call)
  show ?case
    unfolding step call
      split_Cons_at [of c cs "\<lambda>c. removes_equivalent c v"
        "\<lambda>post. \<forall>c' \<in> set post. \<not> inserts_equivalent c' v"]
    using inserts_not_removes [of c v] by auto
qed

lemma equivalent_linear: "equivalent x y = (x = (y :: 'a::linorder))"
  by (auto simp: equivalent_def)

lemma kv_strict_weak:
  "\<forall>x y z :: kv. equivalent x y \<and> equivalent y z \<longrightarrow> equivalent x z"
  by (auto simp: equivalent_def less_kv_def)

section \<open>The properties of the specification\<close>

text \<open>
  C8 (traversal consistency). In every state of the tree, \<^verbatim>\<open>in_order()\<close>,
  \<^verbatim>\<open>pre_order()\<close> and \<^verbatim>\<open>post_order()\<close> enumerate the same elements: the three results
  are equal as sets, have the same length, and are permutations of each other (equal as
  multisets), so they differ only in the order of emission. This holds for every tree,
  whether or not it satisfies the ordering invariant.
\<close>

theorem traversal_consistency:
  "set (BST_in_order this) = set (BST_pre_order this)
   \<and> set (BST_pre_order this) = set (BST_post_order this)
   \<and> length (BST_in_order this) = length (BST_pre_order this)
   \<and> length (BST_pre_order this) = length (BST_post_order this)
   \<and> mset (BST_in_order this) = mset (BST_pre_order this)
   \<and> mset (BST_in_order this) = mset (BST_post_order this)"
proof -
  have "BST_in_order this = inorder (root this)"
    by (simp add: BST_in_order_def in_order_rec_eq)
  moreover have "BST_pre_order this = preorder (root this)"
    by (simp add: BST_pre_order_def pre_order_rec_eq)
  moreover have "BST_post_order this = postorder (root this)"
    by (simp add: BST_post_order_def post_order_rec_eq)
  ultimately show ?thesis
    using mset_inorder_preorder [of "root this"] mset_inorder_postorder [of "root this"]
    by (simp add: set_inorder set_preorder set_postorder
        length_inorder length_preorder length_postorder)
qed

theorem traversal_consistency_witness:
  "BST_in_order \<lparr>root = TreeNode (2::int) (TreeNode 1 Null Null) (TreeNode 3 Null Null)\<rparr> = [1, 2, 3]
   \<and> BST_pre_order \<lparr>root = TreeNode (2::int) (TreeNode 1 Null Null) (TreeNode 3 Null Null)\<rparr> = [2, 1, 3]
   \<and> BST_post_order \<lparr>root = TreeNode (2::int) (TreeNode 1 Null Null) (TreeNode 3 Null Null)\<rparr> = [1, 3, 2]
   \<and> set (BST_in_order \<lparr>root = TreeNode (2::int) (TreeNode 1 Null Null) (TreeNode 3 Null Null)\<rparr>)
       = set (BST_post_order \<lparr>root = TreeNode (2::int) (TreeNode 1 Null Null) (TreeNode 3 Null Null)\<rparr>)"
  using traversal_consistency
    [of "\<lparr>root = TreeNode (2::int) (TreeNode 1 Null Null) (TreeNode 3 Null Null)\<rparr>"]
  by (simp add: BST_in_order_def BST_pre_order_def BST_post_order_def)

text \<open>
  C9 (termination). Every operation terminates on every tree: the recursions of
  \<^verbatim>\<open>insert\<close>, \<^verbatim>\<open>remove\<close>, \<^verbatim>\<open>contain\<close>, \<^verbatim>\<open>find_node\<close> and of the three traversals, and
  the loops of \<^verbatim>\<open>min\<close> and \<^verbatim>\<open>max\<close>, admit no infinite chain of calls, for every tree,
  value and result vector. For \<^verbatim>\<open>remove\<close> the chains include the call that the case of two
  children makes on the right subtree with the successor's value. The trees are the finite
  ones: a node reachable from itself is excluded by the data model.
\<close>

theorem operations_terminate:
  "insert_rec_dom (t :: 'a::ord tree, v)
   \<and> remove_rec_dom (t, v)
   \<and> contain_rec_dom (t, v)
   \<and> find_node_rec_dom (t, v)
   \<and> in_order_rec_dom (t, res)
   \<and> pre_order_rec_dom (t, res)
   \<and> post_order_rec_dom (t, res)
   \<and> TreeNode_min_dom (d, l, r)
   \<and> TreeNode_max_dom (d, l, r)"
  by (intro conjI insert_rec_total remove_rec_total contain_rec_total find_node_rec_total
      in_order_rec_total pre_order_rec_total post_order_rec_total
      TreeNode_min_total TreeNode_max_total)

text \<open>
  C6 (removal with two children, concrete scenario). Inserting 50, 30, 70, 20, 40, 60, 80
  into the empty tree and calling \<^verbatim>\<open>remove(50)\<close>: the call returns true, \<^verbatim>\<open>in_order()\<close>
  then yields 20, 30, 40, 60, 70, 80, \<^verbatim>\<open>contain(50)\<close> is false, and the root holds 60, the
  minimum of the right subtree.
\<close>

theorem scenario_remove_50:
  "run BST_new (map Insert [50, 30, 70, 20, 40, 60, 80 :: int]) =
     (\<lparr>root = TreeNode 50 (TreeNode 30 (TreeNode 20 Null Null) (TreeNode 40 Null Null))
                         (TreeNode 70 (TreeNode 60 Null Null) (TreeNode 80 Null Null))\<rparr>,
      [True, True, True, True, True, True, True])
   \<and> (let this = fst (run BST_new (map Insert [50, 30, 70, 20, 40, 60, 80 :: int]));
          this' = fst (BST_remove this 50)
      in snd (BST_remove this 50)
         \<and> BST_in_order this' = [20, 30, 40, 60, 70, 80]
         \<and> \<not> BST_contain this' 50
         \<and> data (root this') = 60
         \<and> BST_pre_order this' = [60, 30, 20, 40, 70, 80])"
  by (simp add: BST_new_def BST_insert_def BST_remove_def BST_in_order_def BST_pre_order_def
      BST_contain_def Let_def)

text \<open>
  C1 (invariant preservation). After every finite history of \<^verbatim>\<open>insert\<close> and \<^verbatim>\<open>remove\<close>
  calls on the empty tree, the tree satisfies the ordering invariant, and \<^verbatim>\<open>in_order()\<close>
  yields a strictly ascending sequence, hence one without duplicates.
\<close>

theorem invariant_preservation:
  fixes calls :: "'a::linorder call list"
  shows "bst_invariant (root (fst (run BST_new calls)))
    \<and> sorted_wrt (<) (BST_in_order (fst (run BST_new calls)))
    \<and> distinct (BST_in_order (fst (run BST_new calls)))"
proof -
  let ?final = "fst (run BST_new calls)"
  have "bst_invariant (root (BST_new :: 'a BST))" by (simp add: BST_new_def)
  then have inv: "bst_invariant (root ?final)" by (rule bst_run)
  have io: "BST_in_order ?final = inorder (root ?final)"
    by (simp add: BST_in_order_def in_order_rec_eq)
  have asc: "sorted_wrt (<) (inorder (root ?final))" using inv by (rule sorted_inorder)
  then have "distinct (inorder (root ?final))" by (simp add: strict_sorted_iff)
  with inv asc io show ?thesis by simp
qed

theorem invariant_preservation_witness:
  "fst (run BST_new [Insert (5::int), Insert 3, Insert 8, Insert 3, Remove 5, Remove 7])
     = \<lparr>root = TreeNode 8 (TreeNode 3 Null Null) Null\<rparr>
   \<and> bst_invariant (TreeNode (8::int) (TreeNode 3 Null Null) Null)
   \<and> sorted_wrt (<) (BST_in_order \<lparr>root = TreeNode (8::int) (TreeNode 3 Null Null) Null\<rparr>)
   \<and> BST_in_order \<lparr>root = TreeNode (8::int) (TreeNode 3 Null Null) Null\<rparr> = [3, 8]"
proof -
  have r: "fst (run BST_new [Insert (5::int), Insert 3, Insert 8, Insert 3, Remove 5, Remove 7])
     = \<lparr>root = TreeNode 8 (TreeNode 3 Null Null) Null\<rparr>"
    by (simp add: BST_new_def BST_insert_def BST_remove_def)
  show ?thesis
    using invariant_preservation
      [of "[Insert (5::int), Insert 3, Insert 8, Insert 3, Remove 5, Remove 7]"]
    unfolding r by (simp add: BST_in_order_def)
qed

text \<open>
  C5 as stated (round-trip membership, by the values themselves). The statement fails at
  an element type on which equivalent values need not be equal. After the single call
  \<^verbatim>\<open>insert(KV 1 2)\<close> on the empty tree the value \<open>KV 1 1\<close> was never inserted, and
  \<^verbatim>\<open>contain(KV 1 1)\<close> is true: the search compares with \<open><\<close> only, which reads the keys.
\<close>

theorem membership_round_trip_counterexample:
  "Insert (KV 1 1) \<notin> set [Insert (KV 1 2)]
   \<and> BST_contain (fst (run BST_new [Insert (KV 1 2)])) (KV 1 1)"
  by (simp add: BST_new_def BST_insert_def BST_contain_def less_kv_def)

text \<open>
  C5 as amended (round-trip membership up to equivalence). Let the ordering be a strict weak
  ordering: \<open><\<close> is irreflexive and transitive, and equivalence is transitive. After every
  history of calls on the empty tree, \<^verbatim>\<open>contain(v)\<close> is true exactly when the history has
  an insert of a value equivalent to \<open>v\<close> with no remove of a value equivalent to \<open>v\<close> after
  it; and it is false exactly when no value equivalent to \<open>v\<close> was ever inserted, or the
  history has a remove of a value equivalent to \<open>v\<close> with no insert of a value equivalent to
  \<open>v\<close> after it.
\<close>

theorem membership_up_to_equivalence:
  fixes calls :: "'a::preorder call list"
  assumes "\<forall>x y z :: 'a. equivalent x y \<and> equivalent y z \<longrightarrow> equivalent x z"
  shows "(BST_contain (fst (run BST_new calls)) v
           = (\<exists>pre c post. calls = pre @ c # post \<and> inserts_equivalent c v
                \<and> (\<forall>c' \<in> set post. \<not> removes_equivalent c' v)))
    \<and> ((\<not> BST_contain (fst (run BST_new calls)) v)
           = ((\<forall>c \<in> set calls. \<not> inserts_equivalent c v)
              \<or> (\<exists>pre c post. calls = pre @ c # post \<and> removes_equivalent c v
                    \<and> (\<forall>c' \<in> set post. \<not> inserts_equivalent c' v))))"
proof -
  have tr: "\<And>x y z :: 'a. equivalent x y \<Longrightarrow> equivalent y z \<Longrightarrow> equivalent x z"
    using assms by blast
  have start: "bst_invariant (root (BST_new :: 'a BST))" by (simp add: BST_new_def)
  have empty: "\<not> contain_rec (root (BST_new :: 'a BST)) v" by (simp add: BST_new_def)
  have c: "BST_contain (fst (run BST_new calls)) v
      = contain_rec (root (fst (run BST_new calls))) v"
    by (simp add: BST_contain_def)
  have pos: "contain_rec (root (fst (run BST_new calls))) v
      = (\<exists>pre c post. calls = pre @ c # post \<and> inserts_equivalent c v
           \<and> (\<forall>c' \<in> set post. \<not> removes_equivalent c' v))"
    using contain_run [OF start tr, where cs = calls and v = v] empty by simp
  have neg: "(\<not> contain_rec (root (fst (run BST_new calls))) v)
      = ((\<forall>c \<in> set calls. \<not> inserts_equivalent c v)
         \<or> (\<exists>pre c post. calls = pre @ c # post \<and> removes_equivalent c v
               \<and> (\<forall>c' \<in> set post. \<not> inserts_equivalent c' v)))"
    using not_contain_run [OF start tr, where cs = calls and v = v] empty by auto
  show ?thesis unfolding c using pos neg by blast
qed

theorem membership_up_to_equivalence_witness:
  "BST_contain (fst (run BST_new [Insert (KV 1 2), Insert (KV 2 0), Remove (KV 2 5)])) (KV 1 1)
   \<and> \<not> BST_contain (fst (run BST_new [Insert (KV 1 2), Insert (KV 2 0), Remove (KV 2 5)])) (KV 2 0)
   \<and> \<not> BST_contain (fst (run BST_new [Insert (KV 1 2), Insert (KV 2 0), Remove (KV 2 5)])) (KV 3 0)"
proof -
  let ?calls = "[Insert (KV 1 2), Insert (KV 2 0), Remove (KV 2 5)]"
  have "?calls = [] @ Insert (KV 1 2) # [Insert (KV 2 0), Remove (KV 2 5)]
      \<and> inserts_equivalent (Insert (KV 1 2)) (KV 1 1)
      \<and> (\<forall>c' \<in> set [Insert (KV 2 0), Remove (KV 2 5)]. \<not> removes_equivalent c' (KV 1 1))"
    by (simp add: equivalent_def less_kv_def)
  then have kept: "\<exists>pre c post. ?calls = pre @ c # post \<and> inserts_equivalent c (KV 1 1)
      \<and> (\<forall>c' \<in> set post. \<not> removes_equivalent c' (KV 1 1))"
    by blast
  have "?calls = [Insert (KV 1 2), Insert (KV 2 0)] @ Remove (KV 2 5) # []
      \<and> removes_equivalent (Remove (KV 2 5)) (KV 2 0)
      \<and> (\<forall>c' \<in> set []. \<not> inserts_equivalent c' (KV 2 0))"
    by (simp add: equivalent_def less_kv_def)
  then have removed: "\<exists>pre c post. ?calls = pre @ c # post \<and> removes_equivalent c (KV 2 0)
      \<and> (\<forall>c' \<in> set post. \<not> inserts_equivalent c' (KV 2 0))"
    by blast
  have never: "\<forall>c \<in> set ?calls. \<not> inserts_equivalent c (KV 3 0)"
    by (simp add: equivalent_def less_kv_def)
  show ?thesis
    using membership_up_to_equivalence [OF kv_strict_weak, of ?calls "KV 1 1"]
      membership_up_to_equivalence [OF kv_strict_weak, of ?calls "KV 2 0"]
      membership_up_to_equivalence [OF kv_strict_weak, of ?calls "KV 3 0"]
      kept removed never
    by blast
qed

text \<open>
  On a linear order equivalent values are equal, and the membership property holds by the
  values themselves: \<^verbatim>\<open>contain(v)\<close> is true exactly when the history has an insert of \<open>v\<close>
  with no remove of \<open>v\<close> after it.
\<close>

lemma membership_round_trip_linear:
  fixes calls :: "'a::linorder call list"
  shows "(BST_contain (fst (run BST_new calls)) v
           = (\<exists>pre post. calls = pre @ Insert v # post \<and> Remove v \<notin> set post))
    \<and> ((\<not> BST_contain (fst (run BST_new calls)) v)
           = (Insert v \<notin> set calls
              \<or> (\<exists>pre post. calls = pre @ Remove v # post \<and> Insert v \<notin> set post)))"
proof -
  let ?final = "fst (run BST_new calls)"
  have start: "bst_invariant (root (BST_new :: 'a BST))" by (simp add: BST_new_def)
  then have "bst_invariant (root ?final)" by (rule bst_run)
  then have c: "BST_contain ?final v = (v \<in> set_tree (root ?final))"
    by (simp add: BST_contain_def contain_rec_iff)
  have "(v \<in> set_tree (root ?final))
      = (\<exists>pre post. calls = pre @ Insert v # post \<and> Remove v \<notin> set post)"
    using member_run [OF start, of v calls] by (simp add: BST_new_def)
  moreover have "(v \<notin> set_tree (root ?final))
      = (Insert v \<notin> set calls
         \<or> (\<exists>pre post. calls = pre @ Remove v # post \<and> Insert v \<notin> set post))"
    using not_member_run [OF start, of v calls] by (auto simp: BST_new_def)
  ultimately show ?thesis unfolding c by blast
qed

text \<open>
  C7 (count conservation). After every history of calls on the empty tree, the length of
  \<^verbatim>\<open>in_order()\<close> is the number of inserts that returned true minus the number of removes
  that returned true.
\<close>

theorem count_conservation:
  fixes calls :: "'a::linorder call list"
  shows "length (BST_in_order (fst (run BST_new calls)))
           = successful_inserts calls (snd (run BST_new calls))
             - successful_removes calls (snd (run BST_new calls))
    \<and> successful_removes calls (snd (run BST_new calls))
           \<le> successful_inserts calls (snd (run BST_new calls))
    \<and> length (snd (run BST_new calls)) = length calls"
proof -
  have "bst_invariant (root (BST_new :: 'a BST))" by (simp add: BST_new_def)
  then have "size (root (fst (run BST_new calls))) + successful_removes calls (snd (run BST_new calls))
      = size (root (BST_new :: 'a BST)) + successful_inserts calls (snd (run BST_new calls))"
    by (rule count_run)
  moreover have "size (root (BST_new :: 'a BST)) = 0" by (simp add: BST_new_def)
  moreover have "length (BST_in_order (fst (run BST_new calls)))
      = size (root (fst (run BST_new calls)))"
    by (simp add: BST_in_order_def in_order_rec_eq length_inorder)
  ultimately show ?thesis by (simp add: length_snd_run)
qed

theorem count_conservation_witness:
  "snd (run BST_new [Insert (5::int), Insert 3, Insert 5, Remove 7, Remove 5])
     = [True, True, False, False, True]
   \<and> successful_inserts [Insert (5::int), Insert 3, Insert 5, Remove 7, Remove 5]
        [True, True, False, False, True] = 2
   \<and> successful_removes [Insert (5::int), Insert 3, Insert 5, Remove 7, Remove 5]
        [True, True, False, False, True] = 1
   \<and> length (BST_in_order (fst (run BST_new [Insert (5::int), Insert 3, Insert 5, Remove 7, Remove 5]))) = 1"
proof -
  have r: "snd (run BST_new [Insert (5::int), Insert 3, Insert 5, Remove 7, Remove 5])
     = [True, True, False, False, True]"
    by (simp add: BST_new_def BST_insert_def BST_remove_def)
  show ?thesis
    using count_conservation [of "[Insert (5::int), Insert 3, Insert 5, Remove 7, Remove 5]"]
    unfolding r by simp
qed

text \<open>
  C10 (insert, then remove). If \<^verbatim>\<open>contain(v)\<close> is false, then \<^verbatim>\<open>insert(v)\<close> returns
  true and creates a leaf holding \<open>v\<close>, and \<^verbatim>\<open>remove(v)\<close> on the result returns true, ends
  in the leaf case and gives back the original tree, node for node; so the three traversals
  are those of the original tree. The ordering invariant is not needed for bst, only that
  no value is less than itself.
\<close>

theorem insert_then_remove:
  fixes bst :: "'a::preorder BST"
  assumes "\<not> BST_contain bst v"
  shows "snd (BST_insert bst v)
    \<and> BST_find_node (fst (BST_insert bst v)) v = TreeNode v Null Null
    \<and> remove_case_of (root (fst (BST_insert bst v))) v = Leaf_case
    \<and> BST_remove (fst (BST_insert bst v)) v = (bst, True)
    \<and> BST_pre_order (fst (BST_remove (fst (BST_insert bst v)) v)) = BST_pre_order bst
    \<and> BST_in_order (fst (BST_remove (fst (BST_insert bst v)) v)) = BST_in_order bst
    \<and> BST_post_order (fst (BST_remove (fst (BST_insert bst v)) v)) = BST_post_order bst"
proof -
  from assms have absent: "\<not> contain_rec (root bst) v" by (simp add: BST_contain_def)
  have ret: "snd (BST_insert bst v)"
    using absent by (simp add: snd_BST_insert snd_insert_rec)
  have leaf: "BST_find_node (fst (BST_insert bst v)) v = TreeNode v Null Null"
    using absent by (simp add: BST_find_node_def root_BST_insert insert_leaf_found)
  have "remove_case_of (root (fst (BST_insert bst v))) v
      = remove_case_of (TreeNode v Null Null) v"
    using leaf remove_case_found [of "root (fst (BST_insert bst v))" v]
    by (simp add: BST_find_node_def)
  then have branch: "remove_case_of (root (fst (BST_insert bst v))) v = Leaf_case" by simp
  have restored: "BST_remove (fst (BST_insert bst v)) v = (bst, True)"
    using insert_then_remove_rec [OF absent]
    by (simp add: BST_remove_def BST_insert_def case_prod_unfold)
  from ret leaf branch restored show ?thesis by simp
qed

theorem insert_then_remove_witness:
  "\<not> BST_contain \<lparr>root = TreeNode (5::int) (TreeNode 3 Null Null) Null\<rparr> 4
   \<and> BST_insert \<lparr>root = TreeNode (5::int) (TreeNode 3 Null Null) Null\<rparr> 4
       = (\<lparr>root = TreeNode 5 (TreeNode 3 Null (TreeNode 4 Null Null)) Null\<rparr>, True)
   \<and> BST_remove \<lparr>root = TreeNode (5::int) (TreeNode 3 Null (TreeNode 4 Null Null)) Null\<rparr> 4
       = (\<lparr>root = TreeNode 5 (TreeNode 3 Null Null) Null\<rparr>, True)"
proof -
  have absent: "\<not> BST_contain \<lparr>root = TreeNode (5::int) (TreeNode 3 Null Null) Null\<rparr> 4"
    by (simp add: BST_contain_def)
  have ins: "BST_insert \<lparr>root = TreeNode (5::int) (TreeNode 3 Null Null) Null\<rparr> 4
       = (\<lparr>root = TreeNode 5 (TreeNode 3 Null (TreeNode 4 Null Null)) Null\<rparr>, True)"
    by (simp add: BST_insert_def)
  show ?thesis
    using insert_then_remove [OF absent] absent unfolding ins by simp
qed

text \<open>
  C4 as stated (a value that is absent, a value that is present). Read by the values
  themselves, the statement fails at an element type on which equivalent values need not
  be equal. The tree built by \<^verbatim>\<open>insert(KV 1 2)\<close> does not store \<open>KV 1 1\<close>, yet
  \<^verbatim>\<open>contain(KV 1 1)\<close> is true, \<^verbatim>\<open>find_node(KV 1 1)\<close> returns a node, and
  \<^verbatim>\<open>remove(KV 1 1)\<close> returns true and empties the tree.
\<close>

theorem absent_value_counterexample:
  "fst (run BST_new [Insert (KV 1 2)]) = \<lparr>root = TreeNode (KV 1 2) Null Null\<rparr>
   \<and> KV 1 1 \<notin> set_tree (root \<lparr>root = TreeNode (KV 1 2) Null Null\<rparr>)
   \<and> BST_contain \<lparr>root = TreeNode (KV 1 2) Null Null\<rparr> (KV 1 1)
   \<and> BST_find_node \<lparr>root = TreeNode (KV 1 2) Null Null\<rparr> (KV 1 1) = TreeNode (KV 1 2) Null Null
   \<and> BST_remove \<lparr>root = TreeNode (KV 1 2) Null Null\<rparr> (KV 1 1) = (\<lparr>root = Null\<rparr>, True)"
  by (simp add: BST_new_def BST_insert_def BST_contain_def BST_find_node_def BST_remove_def
      less_kv_def)

text \<open>
  C4 as amended (every call is a no-op or complete, and says which by its result). A value
  is absent when no stored value is equivalent to it, and present when one is; \<open><\<close> is
  irreflexive and transitive.

  When the search does not find \<open>v\<close>, \<^verbatim>\<open>remove(v)\<close> returns false and leaves the tree as
  it was, and \<^verbatim>\<open>find_node(v)\<close> returns \<^verbatim>\<open>nullptr\<close>; when the search finds \<open>v\<close>,
  \<^verbatim>\<open>insert(v)\<close> returns false and leaves the tree as it was. The search misses every
  absent value, and in a tree that satisfies the ordering invariant it finds every present
  value.

  On a tree that satisfies the ordering invariant, no call returns with its work half done.
  \<^verbatim>\<open>insert(v)\<close> that returns true leaves a tree that satisfies the invariant and stores
  \<open>v\<close> beside the values stored before, one node more. \<^verbatim>\<open>remove(v)\<close> that returns true
  leaves a tree that satisfies the invariant (so the copy of the successor made by case 4
  is gone) and stores the values stored before except one value equivalent to \<open>v\<close>, one
  node less. A call that returns false leaves the tree as it was.
\<close>

theorem no_op_or_complete:
  fixes bst :: "'a::preorder BST"
  shows "(\<not> BST_contain bst v \<longrightarrow>
            BST_remove bst v = (bst, False) \<and> BST_find_node bst v = Null)
    \<and> (BST_contain bst v \<longrightarrow> BST_insert bst v = (bst, False))
    \<and> ((\<forall>x \<in> set_tree (root bst). \<not> equivalent v x) \<longrightarrow> \<not> BST_contain bst v)
    \<and> (bst_invariant (root bst) \<and> (\<exists>x \<in> set_tree (root bst). equivalent v x)
          \<longrightarrow> BST_contain bst v)
    \<and> (bst_invariant (root bst) \<and> snd (BST_insert bst v) \<longrightarrow>
          bst_invariant (root (fst (BST_insert bst v)))
          \<and> set_tree (root (fst (BST_insert bst v))) = insert v (set_tree (root bst))
          \<and> size (root (fst (BST_insert bst v))) = size (root bst) + 1)
    \<and> (\<not> snd (BST_insert bst v) \<longrightarrow> fst (BST_insert bst v) = bst)
    \<and> (bst_invariant (root bst) \<and> snd (BST_remove bst v) \<longrightarrow>
          bst_invariant (root (fst (BST_remove bst v)))
          \<and> (\<exists>x \<in> set_tree (root bst). equivalent v x
                \<and> set_tree (root (fst (BST_remove bst v))) = set_tree (root bst) - {x})
          \<and> size (root (fst (BST_remove bst v))) + 1 = size (root bst))
    \<and> (\<not> snd (BST_remove bst v) \<longrightarrow> fst (BST_remove bst v) = bst)"
proof (intro conjI impI)
  assume "\<not> BST_contain bst v"
  then have a: "\<not> contain_rec (root bst) v" by (simp add: BST_contain_def)
  then show "BST_remove bst v = (bst, False)"
    by (simp add: BST_remove_def remove_rec_not_contain)
  from a show "BST_find_node bst v = Null"
    by (simp add: BST_find_node_def find_node_rec_contain)
next
  assume "BST_contain bst v"
  then have "contain_rec (root bst) v" by (simp add: BST_contain_def)
  then show "BST_insert bst v = (bst, False)"
    by (simp add: BST_insert_def insert_rec_present)
next
  assume "\<forall>x \<in> set_tree (root bst). \<not> equivalent v x"
  then show "\<not> BST_contain bst v"
    using contain_rec_imp_equivalent [of "root bst" v] by (auto simp: BST_contain_def)
next
  assume "bst_invariant (root bst) \<and> (\<exists>x \<in> set_tree (root bst). equivalent v x)"
  then show "BST_contain bst v"
    using equivalent_imp_contain_rec [of "root bst" _ v] by (auto simp: BST_contain_def)
next
  assume a: "bst_invariant (root bst) \<and> snd (BST_insert bst v)"
  then have "bst_invariant (root bst)" "snd (insert_rec (root bst) v)"
    by (simp_all add: snd_BST_insert)
  then have "bst_invariant (fst (insert_rec (root bst) v))
      \<and> set_tree (fst (insert_rec (root bst) v)) = insert v (set_tree (root bst))
      \<and> size (fst (insert_rec (root bst) v)) = size (root bst) + 1"
    by (rule insert_rec_complete)
  then show "bst_invariant (root (fst (BST_insert bst v)))"
    "set_tree (root (fst (BST_insert bst v))) = insert v (set_tree (root bst))"
    "size (root (fst (BST_insert bst v))) = size (root bst) + 1"
    by (simp_all add: root_BST_insert)
next
  assume "\<not> snd (BST_insert bst v)"
  then have "contain_rec (root bst) v" by (simp add: snd_BST_insert snd_insert_rec)
  then show "fst (BST_insert bst v) = bst" by (simp add: BST_insert_def insert_rec_present)
next
  assume a: "bst_invariant (root bst) \<and> snd (BST_remove bst v)"
  then have "bst_invariant (root bst)" "snd (remove_rec (root bst) v)"
    by (simp_all add: snd_BST_remove)
  then have "bst_invariant (fst (remove_rec (root bst) v))
      \<and> (\<exists>x \<in> set_tree (root bst). equivalent v x
            \<and> set_tree (fst (remove_rec (root bst) v)) = set_tree (root bst) - {x})
      \<and> size (fst (remove_rec (root bst) v)) + 1 = size (root bst)"
    by (rule remove_rec_complete)
  then show "bst_invariant (root (fst (BST_remove bst v)))"
    "\<exists>x \<in> set_tree (root bst). equivalent v x
       \<and> set_tree (root (fst (BST_remove bst v))) = set_tree (root bst) - {x}"
    "size (root (fst (BST_remove bst v))) + 1 = size (root bst)"
    by (simp_all add: root_BST_remove)
next
  assume "\<not> snd (BST_remove bst v)"
  then have "\<not> snd (remove_rec (root bst) v)" by (simp add: snd_BST_remove)
  then have "remove_rec (root bst) v = (root bst, False)" by (rule remove_rec_false)
  then show "fst (BST_remove bst v) = bst" by (simp add: BST_remove_def)
qed

theorem no_op_or_complete_witness:
  "BST_remove \<lparr>root = TreeNode (KV 5 0) (TreeNode (KV 3 0) Null Null) (TreeNode (KV 8 0) Null Null)\<rparr> (KV 4 9)
     = (\<lparr>root = TreeNode (KV 5 0) (TreeNode (KV 3 0) Null Null) (TreeNode (KV 8 0) Null Null)\<rparr>, False)
   \<and> BST_insert \<lparr>root = TreeNode (KV 5 0) (TreeNode (KV 3 0) Null Null) (TreeNode (KV 8 0) Null Null)\<rparr> (KV 3 9)
     = (\<lparr>root = TreeNode (KV 5 0) (TreeNode (KV 3 0) Null Null) (TreeNode (KV 8 0) Null Null)\<rparr>, False)
   \<and> BST_remove \<lparr>root = TreeNode (KV 5 0) (TreeNode (KV 3 0) Null Null) (TreeNode (KV 8 0) Null Null)\<rparr> (KV 5 9)
     = (\<lparr>root = TreeNode (KV 8 0) (TreeNode (KV 3 0) Null Null) Null\<rparr>, True)
   \<and> bst_invariant (TreeNode (KV 8 0) (TreeNode (KV 3 0) Null Null) Null)"
proof -
  let ?b = "\<lparr>root = TreeNode (KV 5 0) (TreeNode (KV 3 0) Null Null) (TreeNode (KV 8 0) Null Null)\<rparr>"
  have inv: "bst_invariant (root ?b)" by (simp add: less_kv_def)
  have absent: "\<forall>x \<in> set_tree (root ?b). \<not> equivalent (KV 4 9) x"
    by (simp add: equivalent_def less_kv_def)
  have present: "\<exists>x \<in> set_tree (root ?b). equivalent (KV 3 9) x"
    by (simp add: equivalent_def less_kv_def)
  have rem: "BST_remove ?b (KV 5 9)
      = (\<lparr>root = TreeNode (KV 8 0) (TreeNode (KV 3 0) Null Null) Null\<rparr>, True)"
    by (simp add: BST_remove_def less_kv_def)
  show ?thesis
    using no_op_or_complete [of ?b "KV 4 9"] no_op_or_complete [of ?b "KV 3 9"]
      no_op_or_complete [of ?b "KV 5 9"] inv absent present
    unfolding rem by simp
qed

text \<open>
  C2 (insertion). \<^verbatim>\<open>insert(v)\<close> follows the descent by comparison. If the slot the descent
  reaches is absent, the result is the tree with a new leaf holding \<open>v\<close> in that slot and
  nothing else changed, one node more than before, and the call returns true. If the slot
  holds a node, neither \<open>v\<close> nor the node's value is less than the other, the tree is
  unchanged and the call returns false. No property of \<open><\<close> is needed.
\<close>

theorem insert_by_descent:
  fixes bst :: "'a::ord BST"
  shows "(slot_at (root bst) (descent (root bst) v) = Null \<longrightarrow>
            BST_insert bst v
              = (bst\<lparr>root := replace_at (root bst) (descent (root bst) v) (TreeNode v Null Null)\<rparr>,
                 True)
            \<and> slot_at (root (fst (BST_insert bst v))) (descent (root bst) v) = TreeNode v Null Null
            \<and> size (root (fst (BST_insert bst v))) = size (root bst) + 1)
    \<and> (\<forall>d l r. slot_at (root bst) (descent (root bst) v) = TreeNode d l r \<longrightarrow>
            \<not> v < d \<and> \<not> d < v \<and> BST_insert bst v = (bst, False))"
proof (intro conjI impI allI)
  assume "slot_at (root bst) (descent (root bst) v) = Null"
  then have nf: "find_node_rec (root bst) v = Null" by (simp add: slot_at_descent)
  then show ins: "BST_insert bst v
      = (bst\<lparr>root := replace_at (root bst) (descent (root bst) v) (TreeNode v Null Null)\<rparr>, True)"
    by (simp add: BST_insert_def insert_rec_descent)
  show "slot_at (root (fst (BST_insert bst v))) (descent (root bst) v) = TreeNode v Null Null"
    unfolding ins by (simp add: slot_replace_descent)
  have "snd (insert_rec (root bst) v)" using nf by (simp add: insert_rec_descent)
  then show "size (root (fst (BST_insert bst v))) = size (root bst) + 1"
    by (simp add: root_BST_insert size_insert_rec)
next
  fix d l r
  assume "slot_at (root bst) (descent (root bst) v) = TreeNode d l r"
  then have f: "find_node_rec (root bst) v = TreeNode d l r" by (simp add: slot_at_descent)
  then have "\<not> v < d \<and> \<not> d < v" by (rule found_equivalent)
  then show "\<not> v < d" "\<not> d < v" by simp_all
  from f show "BST_insert bst v = (bst, False)"
    by (simp add: BST_insert_def insert_rec_descent)
qed

theorem insert_by_descent_witness:
  "descent (TreeNode (5::int) (TreeNode 3 Null Null) Null) 4 = [Go_left, Go_right]
   \<and> BST_insert \<lparr>root = TreeNode (5::int) (TreeNode 3 Null Null) Null\<rparr> 4
       = (\<lparr>root = TreeNode 5 (TreeNode 3 Null (TreeNode 4 Null Null)) Null\<rparr>, True)
   \<and> descent (TreeNode (5::int) (TreeNode 3 Null Null) Null) 3 = [Go_left]
   \<and> BST_insert \<lparr>root = TreeNode (5::int) (TreeNode 3 Null Null) Null\<rparr> 3
       = (\<lparr>root = TreeNode 5 (TreeNode 3 Null Null) Null\<rparr>, False)"
proof -
  let ?bst = "\<lparr>root = TreeNode (5::int) (TreeNode 3 Null Null) Null\<rparr>"
  have absent: "slot_at (root ?bst) (descent (root ?bst) 4) = Null" by simp
  have present: "slot_at (root ?bst) (descent (root ?bst) 3) = TreeNode 3 Null Null" by simp
  show ?thesis
    using insert_by_descent [of ?bst 4] insert_by_descent [of ?bst 3] absent present
    by simp
qed

text \<open>
  C3 (removal of a node with two children). In a tree that satisfies the ordering invariant,
  let \<^verbatim>\<open>remove(v)\<close> find a node that has two children. Then the call is in case 4; the
  successor it takes is the node of the right subtree holding the least value of that
  subtree; the node found keeps its place and its left subtree, receives the successor's
  value, and its right subtree becomes the result of the inner \<^verbatim>\<open>remove\<close> of that value.
  The successor has no left child and is the node the inner call finds, so the inner call
  returns true, ends in case 1 (leaf) or case 2 (only a right child), never in case 4, and
  removes exactly the successor's value from the right subtree.
\<close>

theorem remove_two_children:
  fixes t :: "'a::linorder tree"
  assumes "bst_invariant t"
    and "find_node_rec t v = TreeNode d l r"
    and "l \<noteq> Null"
    and "r = TreeNode rd rl rr"
  shows "remove_case_of t v = Two_children
    \<and> remove_rec (TreeNode d l r) v
        = (TreeNode (data (TreeNode_min rd rl rr)) l
             (fst (remove_rec r (data (TreeNode_min rd rl rr)))), True)
    \<and> remove_rec t v
        = (replace_at t (descent t v)
             (TreeNode (data (TreeNode_min rd rl rr)) l
                (fst (remove_rec r (data (TreeNode_min rd rl rr))))), True)
    \<and> data (TreeNode_min rd rl rr) \<in> set_tree r
    \<and> (\<forall>x \<in> set_tree r. data (TreeNode_min rd rl rr) \<le> x)
    \<and> left (TreeNode_min rd rl rr) = Null
    \<and> find_node_rec r (data (TreeNode_min rd rl rr)) = TreeNode_min rd rl rr
    \<and> (remove_case_of r (data (TreeNode_min rd rl rr)) = Leaf_case
        \<or> remove_case_of r (data (TreeNode_min rd rl rr)) = Only_right)
    \<and> snd (remove_rec r (data (TreeNode_min rd rl rr)))
    \<and> set_tree (fst (remove_rec r (data (TreeNode_min rd rl rr))))
        = set_tree r - {data (TreeNode_min rd rl rr)}"
proof -
  define s where "s = data (TreeNode_min rd rl rr)"
  obtain ld ll lr where ln: "l = TreeNode ld ll lr" using assms(3) by (cases l) auto
  have eqv: "\<not> v < d" "\<not> d < v" using found_equivalent [OF assms(2)] by simp_all
  have "bst_invariant (find_node_rec t v)" using assms(1) by (rule bst_find_node_rec)
  then have br: "bst_invariant r" by (simp add: assms(2))
  have "remove_case_of t v = remove_case_of (TreeNode d l r) v"
    using remove_case_found [of t v] by (simp add: assms(2))
  then have c4: "remove_case_of t v = Two_children"
    using eqv ln assms(4) by simp
  have here: "remove_rec (TreeNode d l r) v = (TreeNode s l (fst (remove_rec r s)), True)"
    unfolding s_def by (rule remove_rec_two [OF eqv ln assms(4)])
  have whole: "remove_rec t v
      = (replace_at t (descent t v) (TreeNode s l (fst (remove_rec r s))), True)"
    using remove_rec_descent [of t v] by (simp add: assms(2) here del: remove_rec.simps)
  have s_in: "s \<in> set_tree r" unfolding s_def assms(4) by (rule min_in)
  have s_le: "\<forall>x \<in> set_tree r. s \<le> x"
    unfolding s_def using br min_least [of rd rl rr] assms(4) by blast
  have no_left: "left (TreeNode_min rd rl rr) = Null" by (rule min_left)
  have found: "find_node_rec r s = TreeNode_min rd rl rr"
    unfolding s_def assms(4) using br assms(4) by (simp add: find_min del: find_node_rec.simps)
  obtain sr where succ: "TreeNode_min rd rl rr = TreeNode s Null sr"
    using no_left min_is_node [of rd rl rr] s_def by (cases "TreeNode_min rd rl rr") auto
  have "remove_case_of r s = remove_case_of (TreeNode s Null sr) s"
    using remove_case_found [of r s] by (simp add: found succ)
  then have inner: "remove_case_of r s = Leaf_case \<or> remove_case_of r s = Only_right"
    by (cases sr) simp_all
  have ret: "snd (remove_rec r s)" using br s_in by (simp add: snd_remove_rec)
  have rest: "set_tree (fst (remove_rec r s)) = set_tree r - {s}"
    using br by (rule set_remove_rec)
  from c4 here whole s_in s_le no_left found inner ret rest show ?thesis
    unfolding s_def by blast
qed

theorem remove_two_children_witness:
  "bst_invariant (TreeNode (50::int) (TreeNode 30 Null Null)
      (TreeNode 70 (TreeNode 60 Null (TreeNode 65 Null Null)) Null))
   \<and> remove_rec (TreeNode (50::int) (TreeNode 30 Null Null)
      (TreeNode 70 (TreeNode 60 Null (TreeNode 65 Null Null)) Null)) 50
      = (TreeNode 60 (TreeNode 30 Null Null) (TreeNode 70 (TreeNode 65 Null Null) Null), True)
   \<and> remove_case_of (TreeNode (70::int) (TreeNode 60 Null (TreeNode 65 Null Null)) Null) 60
      = Only_right"
proof -
  let ?l = "TreeNode (30::int) Null Null"
  let ?r = "TreeNode (70::int) (TreeNode 60 Null (TreeNode 65 Null Null)) Null"
  let ?t = "TreeNode 50 ?l ?r"
  have inv: "bst_invariant ?t" by simp
  have found: "find_node_rec ?t 50 = TreeNode 50 ?l ?r" by simp
  have two: "?l \<noteq> Null" by simp
  have succ: "TreeNode_min 70 (TreeNode (60::int) Null (TreeNode 65 Null Null)) Null
      = TreeNode 60 Null (TreeNode 65 Null Null)" by simp
  have inner: "fst (remove_rec ?r 60) = TreeNode 70 (TreeNode 65 Null Null) Null" by simp
  show ?thesis
    using remove_two_children [OF inv found two refl] inv
    unfolding succ by (simp del: remove_rec.simps add: inner)
qed

end
